theory Spec2Isabelle
  imports Complex_Main
begin

section \<open>Arrays\<close>

text \<open>
  The numerical core of BIFT.py works on numpy arrays of 64-bit floats. The embedding
  reads every float as a real number: a vector is a list of reals, a two-dimensional
  array is the list of its rows. Rounding, overflow and the non-finite values
  \<open>inf\<close> and \<open>nan\<close> are outside this reading; the places where the
  source divides are noted where they matter. The inner solver is read a second time
  further down, with \<open>nan\<close> as a value and with the exception that its compiled
  division raises, for the statements about when its loop stops.
\<close>

type_synonym vec = "real list"
type_synonym mat = "real list list"

datatype error = IndexError | ValueError | ZeroDivisionError | AttributeError

text \<open>The second component of \<open>a.shape\<close> for an array stored by rows.\<close>

definition ncols :: "mat \<Rightarrow> nat" where
  "ncols a = (if a = [] then 0 else length (a ! 0))"

text \<open>\<open>res.reshape(sh)\<close>: a flat array of \<open>n0 * n1\<close> entries cut into \<open>n0\<close> rows.\<close>

definition reshape :: "nat \<Rightarrow> nat \<Rightarrow> vec \<Rightarrow> mat" where
  "reshape n0 n1 v = map (\<lambda>r. map (\<lambda>c. v ! (r * n1 + c)) [0..<n1]) [0..<n0]"

text \<open>\<open>a.reshape(1, n0 * n1)\<close>: the rows of \<open>a\<close> one after the other.\<close>

definition flatten :: "mat \<Rightarrow> vec" where
  "flatten a = map (\<lambda>i. a ! (i div ncols a) ! (i mod ncols a)) [0..<length a * ncols a]"

text \<open>
  Reading index \<open>i\<close> of a one-dimensional array in compiled (numba) code: a negative
  index counts from the end, as in Python; an index outside the array reads memory that
  is not the array's, which the model records as \<open>None\<close>.
\<close>

definition np_get :: "vec \<Rightarrow> int \<Rightarrow> real option" where
  "np_get b i =
     (let n = int (length b); j = (if i < 0 then n + i else i)
      in if 0 \<le> j \<and> j < n then Some (b ! nat j) else None)"

text \<open>\<open>a[r, c] = v\<close> on a numpy array; Python raises IndexError outside the array.\<close>

definition set_entry :: "mat \<Rightarrow> nat \<Rightarrow> nat \<Rightarrow> real \<Rightarrow> mat option" where
  "set_entry a r c v =
     (if r < length a \<and> c < length (a ! r) then Some (a[r := (a ! r)[c := v]]) else None)"

text \<open>\<open>np.eye(n)\<close>.\<close>

definition eye :: "nat \<Rightarrow> mat" where
  "eye n = map (\<lambda>r. map (\<lambda>c. if r = c then 1 else 0) [0..<n]) [0..<n]"

section \<open>Circular shifts and the matrix A of the evidence\<close>

text \<open>
  \<open>shiftLeft(a, shift)\<close>: the array is flattened, entry \<open>i\<close> of the result is entry
  \<open>shift + i\<close> of the flat array while that exists and entry
  \<open>array_length - 1 - i - shift\<close> otherwise, and the result gets the shape of \<open>a\<close>.
\<close>

definition shiftLeft :: "mat \<Rightarrow> int \<Rightarrow> mat option" where
  "shiftLeft a shift =
     (let sh0 = length a; sh1 = ncols a;
          array_length = sh0 * sh1;
          b = flatten a;
          res = map (\<lambda>i. if int i < int array_length - shift
                          then np_get b (shift + int i)
                          else np_get b (int array_length - 1 - int i - shift))
                    [0..<array_length]
      in map_option (reshape sh0 sh1) (those res))"

text \<open>\<open>shiftRight(a, shift)\<close>: entry \<open>i\<close> of the result is entry \<open>i - shift\<close>.\<close>

definition shiftRight :: "mat \<Rightarrow> int \<Rightarrow> mat option" where
  "shiftRight a shift =
     (let sh0 = length a; sh1 = ncols a;
          array_length = sh0 * sh1;
          b = flatten a;
          res = map (\<lambda>i. np_get b (int i - shift)) [0..<array_length]
      in map_option (reshape sh0 sh1) (those res))"

text \<open>
  What the two shifts by one position make of a flat array \<open>b\<close>: the left shift
  moves every entry one place down and repeats the last entry in the last place; the
  right shift moves every entry one place up and puts the last entry first.
\<close>

definition shl :: "vec \<Rightarrow> vec" where
  "shl b = map (\<lambda>i. if Suc i < length b then b ! Suc i else b ! (length b - 1)) [0..<length b]"

definition shr :: "vec \<Rightarrow> vec" where
  "shr b = map (\<lambda>i. if 0 < i then b ! (i - 1) else b ! (length b - 1)) [0..<length b]"

text \<open>Entrywise \<open>(mat1 + mat2) * -0.5 + np.eye(n)\<close>.\<close>

definition combine_A :: "mat \<Rightarrow> mat \<Rightarrow> mat" where
  "combine_A mat1 mat2 =
     map (\<lambda>r. map (\<lambda>c. (mat1 ! r ! c + mat2 ! r ! c) * (- (1/2)) + eye (length mat1) ! r ! c)
                  [0..<ncols mat1])
         [0..<length mat1]"

text \<open>
  The block of \<open>calcPosterior\<close> that builds \<open>A\<close> from \<open>sizeA = max(B.shape)\<close>:
  the identity shifted left and right by one, one corner entry of each shifted matrix
  set to zero, and \<open>A = (mat1 + mat2) * -0.5 + I\<close>.
\<close>

definition calcPosterior_A :: "nat \<Rightarrow> mat option" where
  "calcPosterior_A sizeA =
     (let eyeMat = eye sizeA in
      (case shiftLeft eyeMat 1 of
         None \<Rightarrow> None
       | Some mat1 \<Rightarrow>
           (case shiftRight eyeMat 1 of
              None \<Rightarrow> None
            | Some mat2 \<Rightarrow>
                (case set_entry mat2 0 0 0 of
                   None \<Rightarrow> None
                 | Some mat2' \<Rightarrow>
                     (case set_entry mat1 (length mat1 - 1) (ncols mat1 - 1) 0 of
                        None \<Rightarrow> None
                      | Some mat1' \<Rightarrow> Some (combine_A mat1' mat2'))))))"

text \<open>The tri-diagonal matrix with 1 on the diagonal and -0.5 next to it.\<close>

definition tridiag :: "nat \<Rightarrow> mat" where
  "tridiag n =
     map (\<lambda>r. map (\<lambda>c. if r = c then 1 else if r = Suc c \<or> c = Suc r then - (1/2) else 0)
                  [0..<n])
         [0..<n]"


section \<open>Library functions used by the solver\<close>

text \<open>
  \<open>np.linspace(start, stop, num)\<close>: \<open>num\<close> evenly spaced samples, the first at
  \<open>start\<close> and, for \<open>num > 1\<close>, the last at \<open>stop\<close>.
\<close>

definition linspace :: "real \<Rightarrow> real \<Rightarrow> nat \<Rightarrow> vec" where
  "linspace start stop num =
     (if num = 1 then [start]
      else map (\<lambda>k. start + real k * ((stop - start) / real (num - 1))) [0..<num])"

text \<open>Python's \<open>max\<close> of a sequence; the source applies it to non-empty arrays only.\<close>

definition maximum :: "vec \<Rightarrow> real" where
  "maximum xs = fold max (tl xs) (hd xs)"

text \<open>
  A Python slice \<open>xs[a:b]\<close>: negative bounds count from the end and bounds outside the
  sequence are clipped.
\<close>

definition slice_bound :: "nat \<Rightarrow> int \<Rightarrow> nat" where
  "slice_bound n k = (if k < 0 then nat (max 0 (int n + k)) else min (nat k) n)"

definition py_slice :: "'a list \<Rightarrow> int \<Rightarrow> int \<Rightarrow> 'a list" where
  "py_slice xs a b =
     (let lo = slice_bound (length xs) a; hi = slice_bound (length xs) b
      in take (hi - lo) (drop lo xs))"

text \<open>\<open>np.trapz(y, x)\<close>: the trapezoidal rule.\<close>

definition trapz :: "vec \<Rightarrow> vec \<Rightarrow> real" where
  "trapz y x = (\<Sum>k\<leftarrow>[0..<length x - 1]. (x ! Suc k - x ! k) * (y ! Suc k + y ! k) / 2)"

text \<open>
  The determinant of a square matrix (\<open>scipy.linalg.det\<close>), by expansion along the
  first row.
\<close>

definition del_col :: "nat \<Rightarrow> vec \<Rightarrow> vec" where
  "del_col j row = take j row @ drop (Suc j) row"

function det_mat :: "mat \<Rightarrow> real" where
  "det_mat [] = 1"
| "det_mat (row # rows) =
     (\<Sum>j\<leftarrow>[0..<length row]. (- 1) ^ j * row ! j * det_mat (map (del_col j) rows))"
  by pat_completeness auto
termination
  by (relation "measure length") auto

section \<open>The measurement\<close>

text \<open>
  The SASM object as far as the solver reads it: the modified intensity, scattering
  vector and error arrays, the selected q-range and the \<open>filename\<close> entry of the
  parameter dictionary (\<open>getParameter\<close> returns \<open>None\<close> for a missing key).
\<close>

record measurement =
  sasm_i :: vec
  sasm_q :: vec
  sasm_err :: vec
  selected_q_range :: "int \<times> int"
  filename :: "string option"

definition getQrange :: "measurement \<Rightarrow> int \<times> int" where
  "getQrange Ep = selected_q_range Ep"

section \<open>Transformation matrix and sphere prior\<close>

text \<open>
  \<open>createTransMatrix(q, r)\<close>: \<open>T[i, j] = sin(q[i] r[j]) / (q[i] r[j])\<close>, and 1 where
  the product is 0. The source also stores 1 where the quotient is not equal to itself,
  which no real number is.
\<close>

definition createTransMatrix :: "vec \<Rightarrow> vec \<Rightarrow> mat" where
  "createTransMatrix q r =
     map (\<lambda>i. map (\<lambda>j. let qr = q ! i * r ! j
                        in if qr \<noteq> 0
                           then (let chk = 1 * sin qr / qr in if chk \<noteq> chk then 1 else chk)
                           else 1)
                  [0..<length r])
         [0..<length q]"

definition pmin :: real where
  "pmin = 5 / 1000"

text \<open>
  \<open>distDistribution_Sphere\<close> up to the floor: the r-axis and the unfloored \<open>P\<close>.
  \<open>R_axis_vector[1]\<close> raises IndexError for fewer than two points.
\<close>

definition sphere_raw :: "nat \<Rightarrow> real \<Rightarrow> real \<Rightarrow> error + vec" where
  "sphere_raw N scale_factor dmax =
     (let R_axis_vector = linspace 0 dmax N in
      if length R_axis_vector \<le> 1 then Inl IndexError
      else
        let delta_R = R_axis_vector ! 1;
            psum = dmax ^ 3 / 24;
            strange_norm_factor = scale_factor / psum * delta_R
        in Inr (map (\<lambda>R. R ^ 2 * (1 - 15 / 10 * (R / dmax) + 5 / 10 * (R / dmax) ^ 3)
                           * strange_norm_factor)
                    R_axis_vector))"

text \<open>\<open>P * (P > avm) + avm * (P <= avm)\<close>, a comparison counting as 1 or 0.\<close>

definition sphere_floor :: "real \<Rightarrow> vec \<Rightarrow> vec" where
  "sphere_floor avm P =
     map (\<lambda>p. p * (if p > avm then 1 else 0) + avm * (if p \<le> avm then 1 else 0)) P"

text \<open>
  The floor and rescaling that end \<open>distDistribution_Sphere\<close>. The division by
  \<open>sum2\<close> is a float division: for \<open>sum2 = 0\<close> the source returns non-finite
  entries where this definition returns 0.
\<close>

definition sphere_rescale :: "vec \<Rightarrow> vec" where
  "sphere_rescale P =
     (let sum1 = sum_list P;
          avm = pmin * maximum P;
          P' = sphere_floor avm P;
          sum2 = sum_list P'
      in map (\<lambda>p. p * sum1 / sum2) P')"

definition distDistribution_Sphere :: "nat \<Rightarrow> real \<Rightarrow> real \<Rightarrow> error + vec \<times> vec" where
  "distDistribution_Sphere N scale_factor dmax =
     (case sphere_raw N scale_factor dmax of
        Inl e \<Rightarrow> Inl e
      | Inr P \<Rightarrow> Inr (sphere_rescale P, linspace 0 dmax N))"

text \<open>
  \<open>makePriorDistDistribution\<close>: the scale factor is the first intensity of the whole
  measurement (IndexError when there is none); the only prior type is the sphere.
\<close>

definition makePriorDistDistribution :: "measurement \<Rightarrow> nat \<Rightarrow> real \<Rightarrow> error + vec" where
  "makePriorDistDistribution E N dmax =
     (case sasm_i E of
        [] \<Rightarrow> Inl IndexError
      | scale_factor # _ \<Rightarrow>
          (case distDistribution_Sphere N scale_factor dmax of
             Inl e \<Rightarrow> Inl e
           | Inr (P, R) \<Rightarrow> Inr P))"


section \<open>The inner solver\<close>

text \<open>
  \<open>C_seeksol\<close> is the only caller of \<open>bift\<close> and passes the same settings every
  time; they are constants here.
\<close>

definition omegareduction :: real where
  "omegareduction = 2"

definition omega_init :: real where
  "omega_init = 5 / 10"

definition minit :: nat where
  "minit = 10"

definition maxit :: nat where
  "maxit = 1000"

definition dotsptol :: real where
  "dotsptol = 1 / 1000"

definition omegamin :: real where
  "omegamin = 1 / 1000"

text \<open>
  The variables of \<open>bift\<close> that change while it runs. The arrays have one row in the
  source and are vectors here. \<open>omega_hist\<close> is not a variable of the source: it
  lists every value \<open>omega\<close> has held, the latest first, so that statements about the
  whole run can be made about the final state.
\<close>

record bift_state =
  ite :: nat
  omega :: real
  dotsp :: real
  s_val :: real
  wgrads :: real
  wgradc :: real
  m_vec :: vec
  P_vec :: vec
  Psumi :: vec
  dP_vec :: vec
  Pold :: vec
  omega_hist :: "real list"

text \<open>
  The smoothness constraint vector: the inner entries are set first, then entry 0 and
  entry \<open>N - 1\<close>.
\<close>

definition smooth_m :: "nat \<Rightarrow> vec \<Rightarrow> vec \<Rightarrow> vec" where
  "smooth_m N P m =
     (let m1 = fold (\<lambda>k m'. m'[k := (P ! (k - 1) + P ! (k + 1)) / 2]) [1..<N - 1] m;
          m2 = m1[0 := P ! 1 / 2]
      in m2[N - 1 := P ! (N - 2) / 2])"

text \<open>The block under \<open>if ite != 0\<close>: new \<open>m\<close>, \<open>Psumi\<close>, \<open>dP\<close>, \<open>Pold\<close> and \<open>P\<close>.\<close>

definition update_P :: "nat \<Rightarrow> mat \<Rightarrow> real \<Rightarrow> vec \<Rightarrow> vec \<Rightarrow> bift_state \<Rightarrow> bift_state" where
  "update_P N Bmat alpha sum_dia bkk st =
     (let P = P_vec st;
          m = smooth_m N P (m_vec st);
          Psumi1 = map (\<lambda>j. fold (\<lambda>k acc. acc + P ! k * Bmat ! k ! j) [0..<N] (Psumi st ! j))
                       [0..<N];
          dP = map (\<lambda>k. (m ! k * alpha + sum_dia ! k - Psumi1 ! k) / (bkk ! k + alpha)) [0..<N]
      in st\<lparr>m_vec := m,
            Psumi := map (\<lambda>k. 0) [0..<N],
            dP_vec := dP,
            Pold := map (\<lambda>k. P ! k) [0..<N],
            P_vec := map (\<lambda>k. (1 - omega st) * P ! k + omega st * dP ! k) [0..<N]\<rparr>)"

text \<open>
  The block "Calculating Dotsp", which the source has twice, after the update of \<open>P\<close>
  and inside the step-reduction loop.
\<close>

definition calc_dotsp :: "mat \<Rightarrow> nat \<Rightarrow> vec \<Rightarrow> bift_state \<Rightarrow> bift_state" where
  "calc_dotsp B N sum_dia st =
     (let P = P_vec st; m = m_vec st;
          (s, wgs, wgc, d) =
            fold (\<lambda>k (s, wgs, wgc, d).
                    let gradsi = - 2 * (P ! k - m ! k);
                        gradci = fold (\<lambda>j g. g + 2 * (P ! j * B ! j ! k)) [0..<N] 0
                                 - 2 * sum_dia ! k
                    in (s - (P ! k - m ! k) ^ 2, wgs + gradsi ^ 2, wgc + gradci ^ 2,
                        d + gradci * gradsi))
                 [0..<N] (0, 0, 0, 0)
      in st\<lparr>s_val := s, wgrads := wgs, wgradc := wgc, dotsp := d\<rparr>)"

text \<open>The guard and the body of the loop that reduces the search step \<open>omega\<close>.\<close>

definition reduce_guard :: "real \<Rightarrow> real \<Rightarrow> bift_state \<Rightarrow> bool" where
  "reduce_guard alpha bkkmax st =
     (dotsp st < 0 \<and> alpha < bkkmax \<and> ite st > 1 \<and> omega st > omegamin)"

definition reduce_body :: "mat \<Rightarrow> nat \<Rightarrow> vec \<Rightarrow> bift_state \<Rightarrow> bift_state" where
  "reduce_body B N sum_dia st =
     (let omega' = omega st / omegareduction
      in calc_dotsp B N sum_dia
           (st\<lparr>omega := omega',
               omega_hist := omega' # omega_hist st,
               P_vec := map (\<lambda>k. (1 - omega') * Pold st ! k + omega' * dP_vec st ! k) [0..<N]\<rparr>))"

function reduce_omega :: "mat \<Rightarrow> nat \<Rightarrow> real \<Rightarrow> real \<Rightarrow> vec \<Rightarrow> bift_state \<Rightarrow> bift_state" where
  "reduce_omega B N alpha bkkmax sum_dia st =
     (if reduce_guard alpha bkkmax st
      then reduce_omega B N alpha bkkmax sum_dia (reduce_body B N sum_dia st)
      else st)"
  by pat_completeness auto
termination
proof (relation "measure (\<lambda>(B, N, alpha, bkkmax, sum_dia, st). nat \<lceil>omega st * 1000\<rceil>)")
  show "wf (measure (\<lambda>(B, N, alpha, bkkmax, sum_dia, st). nat \<lceil>omega st * 1000\<rceil>))"
    by simp
next
  fix B :: mat and N :: nat and alpha bkkmax :: real and sum_dia :: vec and st :: bift_state
  assume "reduce_guard alpha bkkmax st"
  then have big: "1 < omega st * 1000"
    by (simp add: reduce_guard_def omegamin_def)
  have om: "omega (reduce_body B N sum_dia st) = omega st / 2"
    by (simp add: reduce_body_def calc_dotsp_def Let_def omegareduction_def split: prod.splits)
  have two: "2 \<le> \<lceil>omega st * 1000\<rceil>"
    using big by linarith
  have "omega st / 2 * 1000 \<le> of_int (\<lceil>omega st * 1000\<rceil> - 1)"
  proof (cases "omega st * 1000 \<le> 2")
    case True
    then show ?thesis using two by linarith
  next
    case False
    then have "omega st / 2 * 1000 \<le> omega st * 1000 - 1" by simp
    also have "\<dots> \<le> of_int (\<lceil>omega st * 1000\<rceil> - 1)" by simp
    finally show ?thesis .
  qed
  then have "\<lceil>omega st / 2 * 1000\<rceil> \<le> \<lceil>omega st * 1000\<rceil> - 1"
    by (simp only: ceiling_le_iff)
  then have "nat \<lceil>omega st / 2 * 1000\<rceil> < nat \<lceil>omega st * 1000\<rceil>"
    using two by linarith
  then show "((B, N, alpha, bkkmax, sum_dia, reduce_body B N sum_dia st),
              (B, N, alpha, bkkmax, sum_dia, st))
             \<in> measure (\<lambda>(B, N, alpha, bkkmax, sum_dia, st). nat \<lceil>omega st * 1000\<rceil>)"
    by (simp add: om)
qed

declare reduce_omega.simps [simp del]

text \<open>The end of an outer iteration: \<open>dotsp\<close> becomes the cosine of the two gradients.\<close>

definition normalize_dotsp :: "bift_state \<Rightarrow> bift_state" where
  "normalize_dotsp st =
     (if wgrads st = 0 \<or> wgradc st = 0 then st\<lparr>dotsp := 1\<rparr>
      else
        let wgs = sqrt (wgrads st); wgc = sqrt (wgradc st)
        in st\<lparr>wgrads := wgs, wgradc := wgc, dotsp := dotsp st / (wgs * wgc)\<rparr>)"

text \<open>The guard of the outer loop and one pass through its body.\<close>

definition bift_guard :: "bift_state \<Rightarrow> bool" where
  "bift_guard st =
     ((ite st < maxit \<and> omega st > omegamin \<and> \<bar>1 - dotsp st\<bar> > dotsptol) \<or> ite st < minit)"

definition bift_body ::
  "mat \<Rightarrow> nat \<Rightarrow> mat \<Rightarrow> real \<Rightarrow> vec \<Rightarrow> vec \<Rightarrow> real \<Rightarrow> bift_state \<Rightarrow> bift_state" where
  "bift_body B N Bmat alpha sum_dia bkk bkkmax st =
     (let st1 = (if ite st \<noteq> 0 then update_P N Bmat alpha sum_dia bkk st else st);
          st2 = st1\<lparr>ite := ite st1 + 1\<rparr>;
          st3 = calc_dotsp B N sum_dia st2;
          st4 = reduce_omega B N alpha bkkmax sum_dia st3
      in normalize_dotsp st4)"


function bift_loop ::
  "mat \<Rightarrow> nat \<Rightarrow> mat \<Rightarrow> real \<Rightarrow> vec \<Rightarrow> vec \<Rightarrow> real \<Rightarrow> bift_state \<Rightarrow> bift_state" where
  "bift_loop B N Bmat alpha sum_dia bkk bkkmax st =
     (if bift_guard st
      then bift_loop B N Bmat alpha sum_dia bkk bkkmax
             (bift_body B N Bmat alpha sum_dia bkk bkkmax st)
      else st)"
  by pat_completeness auto
termination
proof (relation "measure (\<lambda>(B, N, Bmat, alpha, sum_dia, bkk, bkkmax, st). maxit - ite st)")
  show "wf (measure (\<lambda>(B, N, Bmat, alpha, sum_dia, bkk, bkkmax, st). maxit - ite st))"
    by simp
next
  fix B Bmat :: mat and N :: nat and alpha bkkmax :: real and sum_dia bkk :: vec
    and st :: bift_state
  assume "bift_guard st"
  then have lt: "ite st < maxit"
    by (auto simp: bift_guard_def minit_def maxit_def)
  have calc: "ite (calc_dotsp B N sum_dia t) = ite t" for t
    by (simp add: calc_dotsp_def Let_def split: prod.splits)
  have red: "ite (reduce_omega B N alpha bkkmax sum_dia t) = ite t" for t
  proof (induction B N alpha bkkmax sum_dia t rule: reduce_omega.induct)
    case (1 B N alpha bkkmax sum_dia t)
    show ?case
    proof (cases "reduce_guard alpha bkkmax t")
      case True
      have "ite (reduce_body B N sum_dia t) = ite t"
        by (simp add: reduce_body_def calc_dotsp_def Let_def split: prod.splits)
      with True "1.IH" show ?thesis by (simp add: reduce_omega.simps [of B N alpha bkkmax sum_dia t])
    next
      case False
      then show ?thesis by (simp add: reduce_omega.simps [of B N alpha bkkmax sum_dia t])
    qed
  qed
  have norm: "ite (normalize_dotsp t) = ite t" for t
    by (simp add: normalize_dotsp_def Let_def)
  have upd: "ite (update_P N Bmat alpha sum_dia bkk t) = ite t" for t
    by (simp add: update_P_def Let_def)
  have "ite (bift_body B N Bmat alpha sum_dia bkk bkkmax st) = ite st + 1"
    by (simp add: bift_body_def Let_def calc red norm upd)
  with lt show "((B, N, Bmat, alpha, sum_dia, bkk, bkkmax,
                  bift_body B N Bmat alpha sum_dia bkk bkkmax st),
                 (B, N, Bmat, alpha, sum_dia, bkk, bkkmax, st))
                \<in> measure (\<lambda>(B, N, Bmat, alpha, sum_dia, bkk, bkkmax, st). maxit - ite st)"
    by simp
qed

declare bift_loop.simps [simp del]

text \<open>
  \<open>bift\<close> with the arguments \<open>C_seeksol\<close> gives it: \<open>dotsp = 0\<close>, the initial
  \<open>omega\<close>, the prior as \<open>m\<close> and as \<open>P\<close>, zero arrays for \<open>Psumi\<close>, \<open>dP\<close> and
  \<open>Pold\<close>. The source returns \<open>s\<close> and leaves \<open>P\<close> changed in place; the final
  state holds both.
\<close>

definition bift_init :: "nat \<Rightarrow> vec \<Rightarrow> vec \<Rightarrow> bift_state" where
  "bift_init N m P =
     \<lparr>ite = 0, omega = omega_init, dotsp = 0, s_val = 0, wgrads = 0, wgradc = 0,
      m_vec = m, P_vec = P, Psumi = map (\<lambda>k. 0) [0..<N], dP_vec = map (\<lambda>k. 0) [0..<N],
      Pold = map (\<lambda>k. 0) [0..<N], omega_hist = [omega_init]\<rparr>"

definition bift ::
  "mat \<Rightarrow> nat \<Rightarrow> vec \<Rightarrow> vec \<Rightarrow> mat \<Rightarrow> real \<Rightarrow> vec \<Rightarrow> vec \<Rightarrow> real \<Rightarrow> bift_state" where
  "bift B N m P Bmat alpha sum_dia bkk bkkmax =
     bift_loop B N Bmat alpha sum_dia bkk bkkmax (bift_init N m P)"

text \<open>
  The condition under which the specification lets the loop stop, in the
  specification's words: \<open>ite \<ge> minit\<close> and (\<open>ite \<ge> maxit\<close> or
  \<open>omega \<le> omega_min\<close> or \<open>|1 - dotsp| \<le> dotsptol\<close>).
\<close>

definition spec_stop :: "bift_state \<Rightarrow> bool" where
  "spec_stop st =
     (ite st \<ge> minit \<and> (ite st \<ge> maxit \<or> omega st \<le> omegamin \<or> \<bar>1 - dotsp st\<bar> \<le> dotsptol))"

text \<open>
  The history of a state is well formed when its head is the current \<open>omega\<close>, its
  last entry the initial value, and every entry but the last arose from the entry
  behind it by one division that the guard of the reduction loop allowed.
\<close>

definition hist_inv :: "bift_state \<Rightarrow> bool" where
  "hist_inv st =
     (omega_hist st \<noteq> [] \<and> hd (omega_hist st) = omega st
      \<and> last (omega_hist st) = omega_init
      \<and> successively (\<lambda>new old. new = old / omegareduction \<and> omegamin < old) (omega_hist st))"

section \<open>The inner solver on floats that may be not a number\<close>

text \<open>
  \<open>bift\<close> once more, for the statements that depend on what the compiled code does
  with a value that is not a number and with a zero divisor. A float is read here as
  a real number or as \<open>nan\<close> (\<open>None\<close>). Arithmetic with \<open>nan\<close> gives \<open>nan\<close>,
  every comparison with \<open>nan\<close> is false, and the division of the compiled function
  raises ZeroDivisionError when the divisor is zero (\<open>bift\<close> is compiled with
  \<open>@jit(nopython=True)\<close>, whose division follows Python). Rounding, overflow and the
  infinite values stay outside this reading. \<open>omega\<close> starts at 0.5 and is only ever
  halved, so it is a number throughout.
\<close>

type_synonym fl = "real option"
type_synonym flvec = "fl list"
type_synonym flmat = "fl list list"

definition fl_op :: "(real \<Rightarrow> real \<Rightarrow> real) \<Rightarrow> fl \<Rightarrow> fl \<Rightarrow> fl" where
  "fl_op f a b = (case a of None \<Rightarrow> None | Some x \<Rightarrow> map_option (f x) b)"

definition fl_add :: "fl \<Rightarrow> fl \<Rightarrow> fl" where
  "fl_add = fl_op (+)"

definition fl_sub :: "fl \<Rightarrow> fl \<Rightarrow> fl" where
  "fl_sub = fl_op (-)"

definition fl_mul :: "fl \<Rightarrow> fl \<Rightarrow> fl" where
  "fl_mul = fl_op (*)"

definition fl_div :: "fl \<Rightarrow> fl \<Rightarrow> error + fl" where
  "fl_div a b = (if b = Some 0 then Inl ZeroDivisionError else Inr (fl_op (/) a b))"

text \<open>\<open>pow(x, 0.5)\<close>, which is not a number for a negative \<open>x\<close>.\<close>

definition fl_sqrt :: "fl \<Rightarrow> fl" where
  "fl_sqrt a = (case a of None \<Rightarrow> None | Some x \<Rightarrow> if x < 0 then None else Some (sqrt x))"

definition fl_rel :: "(real \<Rightarrow> real \<Rightarrow> bool) \<Rightarrow> fl \<Rightarrow> fl \<Rightarrow> bool" where
  "fl_rel r a b =
     (case a of None \<Rightarrow> False | Some x \<Rightarrow> (case b of None \<Rightarrow> False | Some y \<Rightarrow> r x y))"

definition fl_lt :: "fl \<Rightarrow> fl \<Rightarrow> bool" where
  "fl_lt = fl_rel (<)"

definition fl_le :: "fl \<Rightarrow> fl \<Rightarrow> bool" where
  "fl_le = fl_rel (\<le>)"

definition fl_eq :: "fl \<Rightarrow> fl \<Rightarrow> bool" where
  "fl_eq = fl_rel (=)"

text \<open>The results of a loop over \<open>k\<close> whose body may raise: the first error ends it.\<close>

fun collect :: "(error + 'a) list \<Rightarrow> error + 'a list" where
  "collect [] = Inr []"
| "collect (x # xs) =
     (case x of
        Inl e \<Rightarrow> Inl e
      | Inr v \<Rightarrow> (case collect xs of Inl e \<Rightarrow> Inl e | Inr vs \<Rightarrow> Inr (v # vs)))"

record fl_state =
  fl_ite :: nat
  fl_omega :: real
  fl_dotsp :: fl
  fl_s :: fl
  fl_wgrads :: fl
  fl_wgradc :: fl
  fl_m :: flvec
  fl_P :: flvec
  fl_Psumi :: flvec
  fl_dP :: flvec
  fl_Pold :: flvec

definition smooth_m_fl :: "nat \<Rightarrow> flvec \<Rightarrow> flvec \<Rightarrow> flvec" where
  "smooth_m_fl N P m =
     (let m1 = fold (\<lambda>k m'. m'[k := fl_op (/) (fl_add (P ! (k - 1)) (P ! (k + 1))) (Some 2)])
                    [1..<N - 1] m;
          m2 = m1[0 := fl_op (/) (P ! 1) (Some 2)]
      in m2[N - 1 := fl_op (/) (P ! (N - 2)) (Some 2)])"

text \<open>
  The block under \<open>if ite != 0\<close>. The division by \<open>bkk[0,k] + alpha\<close> raises when
  that sum is zero, and the exception leaves \<open>bift\<close>.
\<close>

definition update_P_fl ::
  "nat \<Rightarrow> flmat \<Rightarrow> fl \<Rightarrow> flvec \<Rightarrow> flvec \<Rightarrow> fl_state \<Rightarrow> error + fl_state" where
  "update_P_fl N Bmat alpha sum_dia bkk st =
     (let P = fl_P st;
          m = smooth_m_fl N P (fl_m st);
          Psumi1 = map (\<lambda>j. fold (\<lambda>k acc. fl_add acc (fl_mul (P ! k) (Bmat ! k ! j))) [0..<N]
                                   (fl_Psumi st ! j))
                       [0..<N]
      in case collect (map (\<lambda>k. fl_div (fl_sub (fl_add (fl_mul (m ! k) alpha) (sum_dia ! k))
                                                (Psumi1 ! k))
                                        (fl_add (bkk ! k) alpha))
                           [0..<N]) of
           Inl e \<Rightarrow> Inl e
         | Inr dP \<Rightarrow>
             Inr (st\<lparr>fl_m := m,
                     fl_Psumi := map (\<lambda>k. Some 0) [0..<N],
                     fl_dP := dP,
                     fl_Pold := map (\<lambda>k. P ! k) [0..<N],
                     fl_P := map (\<lambda>k. fl_add (fl_mul (Some (1 - fl_omega st)) (P ! k))
                                               (fl_mul (Some (fl_omega st)) (dP ! k)))
                                 [0..<N]\<rparr>))"

definition calc_dotsp_fl :: "flmat \<Rightarrow> nat \<Rightarrow> flvec \<Rightarrow> fl_state \<Rightarrow> fl_state" where
  "calc_dotsp_fl B N sum_dia st =
     (let P = fl_P st; m = fl_m st;
          (s, wgs, wgc, d) =
            fold (\<lambda>k (s, wgs, wgc, d).
                    let diff = fl_sub (P ! k) (m ! k);
                        gradsi = fl_mul (Some (- 2)) diff;
                        gradci = fl_sub
                                   (fold (\<lambda>j g. fl_add g (fl_mul (Some 2)
                                                            (fl_mul (P ! j) (B ! j ! k))))
                                         [0..<N] (Some 0))
                                   (fl_mul (Some 2) (sum_dia ! k))
                    in (fl_sub s (fl_mul diff diff), fl_add wgs (fl_mul gradsi gradsi),
                        fl_add wgc (fl_mul gradci gradci), fl_add d (fl_mul gradci gradsi)))
                 [0..<N] (Some 0, Some 0, Some 0, Some 0)
      in st\<lparr>fl_s := s, fl_wgrads := wgs, fl_wgradc := wgc, fl_dotsp := d\<rparr>)"

definition reduce_guard_fl :: "fl \<Rightarrow> fl \<Rightarrow> fl_state \<Rightarrow> bool" where
  "reduce_guard_fl alpha bkkmax st =
     (fl_lt (fl_dotsp st) (Some 0) \<and> fl_lt alpha bkkmax \<and> fl_ite st > 1
      \<and> fl_omega st > omegamin)"

definition reduce_body_fl :: "flmat \<Rightarrow> nat \<Rightarrow> flvec \<Rightarrow> fl_state \<Rightarrow> fl_state" where
  "reduce_body_fl B N sum_dia st =
     (let omega' = fl_omega st / omegareduction
      in calc_dotsp_fl B N sum_dia
           (st\<lparr>fl_omega := omega',
               fl_P := map (\<lambda>k. fl_add (fl_mul (Some (1 - omega')) (fl_Pold st ! k))
                                         (fl_mul (Some omega') (fl_dP st ! k)))
                           [0..<N]\<rparr>))"

function reduce_omega_fl ::
  "flmat \<Rightarrow> nat \<Rightarrow> fl \<Rightarrow> fl \<Rightarrow> flvec \<Rightarrow> fl_state \<Rightarrow> fl_state" where
  "reduce_omega_fl B N alpha bkkmax sum_dia st =
     (if reduce_guard_fl alpha bkkmax st
      then reduce_omega_fl B N alpha bkkmax sum_dia (reduce_body_fl B N sum_dia st)
      else st)"
  by pat_completeness auto
termination
proof (relation "measure (\<lambda>(B, N, alpha, bkkmax, sum_dia, st). nat \<lceil>fl_omega st * 1000\<rceil>)")
  show "wf (measure (\<lambda>(B, N, alpha, bkkmax, sum_dia, st). nat \<lceil>fl_omega st * 1000\<rceil>))"
    by simp
next
  fix B :: flmat and N :: nat and alpha bkkmax :: fl and sum_dia :: flvec and st :: fl_state
  assume "reduce_guard_fl alpha bkkmax st"
  then have big: "1 < fl_omega st * 1000"
    by (simp add: reduce_guard_fl_def omegamin_def)
  have om: "fl_omega (reduce_body_fl B N sum_dia st) = fl_omega st / 2"
    by (simp add: reduce_body_fl_def calc_dotsp_fl_def Let_def omegareduction_def
        split: prod.splits)
  have two: "2 \<le> \<lceil>fl_omega st * 1000\<rceil>"
    using big by linarith
  have "fl_omega st / 2 * 1000 \<le> of_int (\<lceil>fl_omega st * 1000\<rceil> - 1)"
  proof (cases "fl_omega st * 1000 \<le> 2")
    case True
    then show ?thesis using two by linarith
  next
    case False
    then have "fl_omega st / 2 * 1000 \<le> fl_omega st * 1000 - 1" by simp
    also have "\<dots> \<le> of_int (\<lceil>fl_omega st * 1000\<rceil> - 1)" by simp
    finally show ?thesis .
  qed
  then have "\<lceil>fl_omega st / 2 * 1000\<rceil> \<le> \<lceil>fl_omega st * 1000\<rceil> - 1"
    by (simp only: ceiling_le_iff)
  then have "nat \<lceil>fl_omega st / 2 * 1000\<rceil> < nat \<lceil>fl_omega st * 1000\<rceil>"
    using two by linarith
  then show "((B, N, alpha, bkkmax, sum_dia, reduce_body_fl B N sum_dia st),
              (B, N, alpha, bkkmax, sum_dia, st))
             \<in> measure (\<lambda>(B, N, alpha, bkkmax, sum_dia, st). nat \<lceil>fl_omega st * 1000\<rceil>)"
    by (simp add: om)
qed

declare reduce_omega_fl.simps [simp del]

text \<open>
  The end of a pass. \<open>nan == 0\<close> is false, so a \<open>wgrads\<close> or \<open>wgradc\<close> that is not
  a number takes the branch that divides.
\<close>

definition normalize_dotsp_fl :: "fl_state \<Rightarrow> error + fl_state" where
  "normalize_dotsp_fl st =
     (if fl_eq (fl_wgrads st) (Some 0) \<or> fl_eq (fl_wgradc st) (Some 0)
      then Inr (st\<lparr>fl_dotsp := Some 1\<rparr>)
      else
        let wgs = fl_sqrt (fl_wgrads st); wgc = fl_sqrt (fl_wgradc st)
        in case fl_div (fl_dotsp st) (fl_mul wgs wgc) of
             Inl e \<Rightarrow> Inl e
           | Inr d \<Rightarrow> Inr (st\<lparr>fl_wgrads := wgs, fl_wgradc := wgc, fl_dotsp := d\<rparr>))"

text \<open>
  The guard of the outer loop as the source writes it:
  \<open>(ite < maxit and omega > omegamin and abs(1-dotsp) > dotsptol) or ite < minit\<close>.
\<close>

definition bift_guard_fl :: "fl_state \<Rightarrow> bool" where
  "bift_guard_fl st =
     ((fl_ite st < maxit \<and> fl_omega st > omegamin
       \<and> fl_lt (Some dotsptol) (map_option abs (fl_sub (Some 1) (fl_dotsp st))))
      \<or> fl_ite st < minit)"

definition bift_body_fl ::
  "flmat \<Rightarrow> nat \<Rightarrow> flmat \<Rightarrow> fl \<Rightarrow> flvec \<Rightarrow> flvec \<Rightarrow> fl \<Rightarrow> fl_state \<Rightarrow> error + fl_state" where
  "bift_body_fl B N Bmat alpha sum_dia bkk bkkmax st =
     (case (if fl_ite st \<noteq> 0 then update_P_fl N Bmat alpha sum_dia bkk st else Inr st) of
        Inl e \<Rightarrow> Inl e
      | Inr st1 \<Rightarrow>
          normalize_dotsp_fl
            (reduce_omega_fl B N alpha bkkmax sum_dia
               (calc_dotsp_fl B N sum_dia (st1\<lparr>fl_ite := fl_ite st1 + 1\<rparr>))))"

function bift_loop_fl ::
  "flmat \<Rightarrow> nat \<Rightarrow> flmat \<Rightarrow> fl \<Rightarrow> flvec \<Rightarrow> flvec \<Rightarrow> fl \<Rightarrow> fl_state \<Rightarrow> error + fl_state" where
  "bift_loop_fl B N Bmat alpha sum_dia bkk bkkmax st =
     (if bift_guard_fl st
      then (case bift_body_fl B N Bmat alpha sum_dia bkk bkkmax st of
              Inl e \<Rightarrow> Inl e
            | Inr st' \<Rightarrow> bift_loop_fl B N Bmat alpha sum_dia bkk bkkmax st')
      else Inr st)"
  by pat_completeness auto
termination
proof (relation "measure (\<lambda>(B, N, Bmat, alpha, sum_dia, bkk, bkkmax, st). maxit - fl_ite st)")
  show "wf (measure (\<lambda>(B, N, Bmat, alpha, sum_dia, bkk, bkkmax, st). maxit - fl_ite st))"
    by simp
next
  fix B Bmat :: flmat and N :: nat and alpha bkkmax :: fl and sum_dia bkk :: flvec
    and st st' :: fl_state
  assume g: "bift_guard_fl st"
    and b: "bift_body_fl B N Bmat alpha sum_dia bkk bkkmax st = Inr st'"
  from g have lt: "fl_ite st < maxit"
    by (auto simp: bift_guard_fl_def minit_def maxit_def)
  have calc: "fl_ite (calc_dotsp_fl B N sum_dia t) = fl_ite t" for t
    by (simp add: calc_dotsp_fl_def Let_def split: prod.splits)
  have red: "fl_ite (reduce_omega_fl B N alpha bkkmax sum_dia t) = fl_ite t" for t
  proof (induction B N alpha bkkmax sum_dia t rule: reduce_omega_fl.induct)
    case (1 B N alpha bkkmax sum_dia t)
    show ?case
    proof (cases "reduce_guard_fl alpha bkkmax t")
      case True
      have "fl_ite (reduce_body_fl B N sum_dia t) = fl_ite t"
        by (simp add: reduce_body_fl_def calc_dotsp_fl_def Let_def split: prod.splits)
      with True "1.IH" show ?thesis
        by (simp add: reduce_omega_fl.simps [of B N alpha bkkmax sum_dia t])
    next
      case False
      then show ?thesis by (simp add: reduce_omega_fl.simps [of B N alpha bkkmax sum_dia t])
    qed
  qed
  have norm: "fl_ite u = fl_ite t" if "normalize_dotsp_fl t = Inr u" for t u
    using that by (auto simp: normalize_dotsp_fl_def Let_def split: if_splits sum.splits)
  have upd: "fl_ite u = fl_ite t" if "update_P_fl N Bmat alpha sum_dia bkk t = Inr u" for t u
    using that by (auto simp: update_P_fl_def Let_def split: sum.splits)
  from b have "fl_ite st' = fl_ite st + 1"
    by (auto simp: bift_body_fl_def calc red dest!: norm upd split: if_splits sum.splits)
  with lt show "((B, N, Bmat, alpha, sum_dia, bkk, bkkmax, st'),
                 (B, N, Bmat, alpha, sum_dia, bkk, bkkmax, st))
                \<in> measure (\<lambda>(B, N, Bmat, alpha, sum_dia, bkk, bkkmax, st). maxit - fl_ite st)"
    by simp
qed

declare bift_loop_fl.simps [simp del]

text \<open>The initial values \<open>C_seeksol\<close> passes, as in \<open>bift_init\<close>.\<close>

definition bift_init_fl :: "nat \<Rightarrow> flvec \<Rightarrow> flvec \<Rightarrow> fl_state" where
  "bift_init_fl N m P =
     \<lparr>fl_ite = 0, fl_omega = omega_init, fl_dotsp = Some 0, fl_s = Some 0,
      fl_wgrads = Some 0, fl_wgradc = Some 0, fl_m = m, fl_P = P,
      fl_Psumi = map (\<lambda>k. Some 0) [0..<N], fl_dP = map (\<lambda>k. Some 0) [0..<N],
      fl_Pold = map (\<lambda>k. Some 0) [0..<N]\<rparr>"

definition bift_fl ::
  "flmat \<Rightarrow> nat \<Rightarrow> flvec \<Rightarrow> flvec \<Rightarrow> flmat \<Rightarrow> fl \<Rightarrow> flvec \<Rightarrow> flvec \<Rightarrow> fl \<Rightarrow> error + fl_state" where
  "bift_fl B N m P Bmat alpha sum_dia bkk bkkmax =
     bift_loop_fl B N Bmat alpha sum_dia bkk bkkmax (bift_init_fl N m P)"

text \<open>\<open>n\<close> passes through a body that may raise.\<close>

fun passes :: "('s \<Rightarrow> error + 's) \<Rightarrow> nat \<Rightarrow> 's \<Rightarrow> error + 's" where
  "passes body 0 st = Inr st"
| "passes body (Suc n) st =
     (case body st of Inl e \<Rightarrow> Inl e | Inr st' \<Rightarrow> passes body n st')"

text \<open>
  The stop condition in the specification's words, \<open>ite \<ge> minit\<close> and
  (\<open>ite \<ge> maxit\<close> or \<open>omega \<le> omega_min\<close> or \<open>|1 - dotsp| \<le> dotsptol\<close>), with the float
  comparison for the last test.
\<close>

definition spec_stop_fl :: "fl_state \<Rightarrow> bool" where
  "spec_stop_fl st =
     (fl_ite st \<ge> minit
      \<and> (fl_ite st \<ge> maxit \<or> fl_omega st \<le> omegamin
         \<or> fl_le (map_option abs (fl_sub (Some 1) (fl_dotsp st))) (Some dotsptol)))"

text \<open>The same condition with one more way to stop: \<open>dotsp\<close> is not a number.\<close>

definition stop_or_nan :: "fl_state \<Rightarrow> bool" where
  "stop_or_nan st =
     (fl_ite st \<ge> minit
      \<and> (fl_ite st \<ge> maxit \<or> fl_omega st \<le> omegamin
         \<or> fl_le (map_option abs (fl_sub (Some 1) (fl_dotsp st))) (Some dotsptol)
         \<or> fl_dotsp st = None))"

section \<open>The evidence\<close>

text \<open>
  \<open>calcPosterior\<close>. \<open>scipy.linalg.det\<close> raises ValueError for a matrix with a
  non-finite entry; \<open>B / alpha\<close> has one when \<open>alpha\<close> is 0. The logarithm of a
  number that is not positive is not a number in the source and is left unspecified by
  \<open>ln\<close>.
\<close>

definition calcPosterior :: "real \<Rightarrow> real \<Rightarrow> real \<Rightarrow> real \<Rightarrow> mat \<Rightarrow> error + real" where
  "calcPosterior alpha dmax s Chi B =
     (let sizeA = max (length B) (ncols B) in
      case calcPosterior_A sizeA of
        None \<Rightarrow> Inl IndexError
      | Some A \<Rightarrow>
          if alpha = 0 then Inl ValueError
          else
            let detAB = det_mat (map (\<lambda>r. map (\<lambda>c. B ! r ! c / alpha + A ! r ! c)
                                                [0..<sizeA])
                                     [0..<sizeA]);
                N = max (length B) (ncols B);
                logdetA = ln (real N + 1) - ln 2 * real N;
                alphaPrior = 1 / alpha;
                Q = alpha * s - 5 / 10 * Chi
            in Inr (5 / 10 * logdetA + Q - 5 / 10 * ln detAB - ln alphaPrior))"

section \<open>C\_seeksol\<close>

text \<open>
  The factors for the gradient. \<open>sigma_sq\<close> is the name the source gives to
  \<open>np.matrix(sigma)\<close>; \<open>T\<close> has one row for each measured point and \<open>N\<close> columns.
\<close>

definition seeksol_sum_dia :: "mat \<Rightarrow> vec \<Rightarrow> vec \<Rightarrow> nat \<Rightarrow> vec" where
  "seeksol_sum_dia T I_exp sigma N =
     (let sigma_sq = sigma
      in map (\<lambda>k. \<Sum>i\<leftarrow>[0..<length T]. T ! i ! k * (I_exp ! i / sigma_sq ! i)) [0..<N])"

definition seeksol_B :: "mat \<Rightarrow> vec \<Rightarrow> nat \<Rightarrow> mat" where
  "seeksol_B T sigma N =
     (let sigma_sq = sigma
      in map (\<lambda>k. map (\<lambda>j. \<Sum>i\<leftarrow>[0..<length T]. T ! i ! k * (T ! i ! j / sigma_sq ! i)) [0..<N])
             [0..<N])"

text \<open>
  The part of \<open>C_seeksol\<close> from the factors for the gradient to the call of
  \<open>bift\<close>; the value is the state in which \<open>bift\<close> ends.
\<close>

definition seeksol_bift :: "vec \<Rightarrow> vec \<Rightarrow> vec \<Rightarrow> real \<Rightarrow> mat \<Rightarrow> bift_state" where
  "seeksol_bift I_exp m sigma alpha T =
     (let N = max 1 (length m);
          sum_dia = seeksol_sum_dia T I_exp sigma N;
          B = seeksol_B T sigma N;
          Bdiag = map (\<lambda>r. map (\<lambda>c. B ! r ! c * eye N ! r ! c) [0..<N]) [0..<N];
          bkk = map (\<lambda>c. \<Sum>r\<leftarrow>[0..<N]. Bdiag ! r ! c) [0..<N];
          Bmat = map (\<lambda>r. map (\<lambda>c. B ! r ! c - Bdiag ! r ! c) [0..<N]) [0..<N];
          bkkmax = maximum bkk * 10
      in bift B N m m Bmat alpha sum_dia bkk bkkmax)"

text \<open>The chi-squared sum \<open>c\<close> that \<open>C_seeksol\<close> computes from the solution \<open>P\<close>.\<close>

definition seeksol_c :: "vec \<Rightarrow> vec \<Rightarrow> mat \<Rightarrow> vec \<Rightarrow> real" where
  "seeksol_c I_exp sigma T P =
     (let I_m = map (\<lambda>i. \<Sum>k\<leftarrow>[0..<length P]. P ! k * T ! i ! k) [0..<length T];
          difftst = map (\<lambda>i. (I_exp ! i - I_m ! i) ^ 2 / sigma ! i ^ 2) [0..<length I_exp]
      in sum_list difftst)"

text \<open>
  The same quantities in the specification's words:
  \<open>f_k = \<Sum>_i T[i,k] I_exp[i] / \<sigma>[i]\<^sup>2\<close>,
  \<open>B[k,j] = \<Sum>_i T[i,k] T[i,j] / \<sigma>[i]\<^sup>2\<close> and
  \<open>\<chi>\<^sup>2 = \<Sum> ((I_exp - I_model) / \<sigma>)\<^sup>2\<close> with \<open>I_model = P T\<^sup>T\<close>.
\<close>

definition spec_f :: "mat \<Rightarrow> vec \<Rightarrow> vec \<Rightarrow> nat \<Rightarrow> vec" where
  "spec_f T I_exp sigma N =
     map (\<lambda>k. \<Sum>i\<leftarrow>[0..<length T]. T ! i ! k * I_exp ! i / sigma ! i ^ 2) [0..<N]"

definition spec_B :: "mat \<Rightarrow> vec \<Rightarrow> nat \<Rightarrow> mat" where
  "spec_B T sigma N =
     map (\<lambda>k. map (\<lambda>j. \<Sum>i\<leftarrow>[0..<length T]. T ! i ! k * T ! i ! j / sigma ! i ^ 2) [0..<N])
         [0..<N]"

definition spec_chi2 :: "vec \<Rightarrow> vec \<Rightarrow> mat \<Rightarrow> vec \<Rightarrow> real" where
  "spec_chi2 I_exp sigma T P =
     (\<Sum>i\<leftarrow>[0..<length I_exp].
        ((I_exp ! i - (\<Sum>k\<leftarrow>[0..<length P]. P ! k * T ! i ! k)) / sigma ! i) ^ 2)"

text \<open>
  \<open>C_seeksol(I_exp, m, q, sigma, alpha, dmax, T)\<close> returns \<open>P\<close>, the evidence and
  \<open>c / I_exp.size\<close>. An entry 0 of \<open>sigma\<close> makes \<open>B\<close> non-finite and the
  determinant raise; an empty \<open>I_exp\<close> makes the last division one of the integers 0
  and 0.
\<close>

definition C_seeksol ::
  "vec \<Rightarrow> vec \<Rightarrow> vec \<Rightarrow> vec \<Rightarrow> real \<Rightarrow> real \<Rightarrow> mat \<Rightarrow> error + vec \<times> real \<times> real" where
  "C_seeksol I_exp m q sigma alpha dmax T =
     (let st = seeksol_bift I_exp m sigma alpha T;
          P = P_vec st;
          c = seeksol_c I_exp sigma T P;
          B = seeksol_B T sigma (max 1 (length m))
      in if list_ex (\<lambda>x. x = 0) sigma then Inl ValueError
         else case calcPosterior alpha dmax (s_val st) c B of
                Inl e \<Rightarrow> Inl e
              | Inr post \<Rightarrow>
                  if length I_exp = 0 then Inl ZeroDivisionError
                  else Inr (P, post, c / real (length I_exp)))"


section \<open>Evaluating the evidence at one point\<close>

text \<open>The three windowed arrays \<open>Ep.i[qmin:qmax]\<close>, \<open>Ep.q[qmin:qmax]\<close>, \<open>Ep.err[qmin:qmax]\<close>.\<close>

definition window_i :: "measurement \<Rightarrow> vec" where
  "window_i Ep = (let (qmin, qmax) = getQrange Ep in py_slice (sasm_i Ep) qmin qmax)"

definition window_q :: "measurement \<Rightarrow> vec" where
  "window_q Ep = (let (qmin, qmax) = getQrange Ep in py_slice (sasm_q Ep) qmin qmax)"

definition window_err :: "measurement \<Rightarrow> vec" where
  "window_err Ep = (let (qmin, qmax) = getQrange Ep in py_slice (sasm_err Ep) qmin qmax)"

text \<open>
  The four lines shared by \<open>GetEvidence\<close>, \<open>fineGetEvidence\<close>, \<open>SingleSolve\<close> and
  the end of \<open>doBift\<close>: the r-grid, \<open>T\<close>, the prior and the call of \<open>C_seeksol\<close>.
  The result also carries \<open>T\<close>.
\<close>

definition solve_at :: "real \<Rightarrow> real \<Rightarrow> measurement \<Rightarrow> nat \<Rightarrow> error + (vec \<times> real \<times> real) \<times> mat" where
  "solve_at alpha dmax Ep N =
     (let r = linspace 0 dmax N;
          T = createTransMatrix (window_q Ep) r
      in case makePriorDistDistribution Ep N dmax of
           Inl e \<Rightarrow> Inl e
         | Inr P \<Rightarrow>
             (case C_seeksol (window_i Ep) P (window_q Ep) (window_err Ep) alpha dmax T of
                Inl e \<Rightarrow> Inl e
              | Inr res \<Rightarrow> Inr (res, T)))"

text \<open>\<open>GetEvidence\<close>: its first argument is the logarithm of \<open>alpha\<close>.\<close>

definition GetEvidence :: "real \<Rightarrow> real \<Rightarrow> measurement \<Rightarrow> nat \<Rightarrow> error + real \<times> real \<times> vec" where
  "GetEvidence alpha dmax Ep N =
     (case solve_at (exp alpha) dmax Ep N of
        Inl e \<Rightarrow> Inl e
      | Inr ((Pout, evd, c), T) \<Rightarrow> Inr (- evd, c, Pout))"

definition fineGetEvidence :: "measurement \<Rightarrow> nat \<Rightarrow> vec \<Rightarrow> error + real" where
  "fineGetEvidence Ep N data =
     (let alpha = data ! 0; dmax = data ! 1
      in case solve_at (exp alpha) dmax Ep N of
           Inl e \<Rightarrow> Inl e
         | Inr ((Pout, evd, c), T) \<Rightarrow> Inr (- evd))"

text \<open>
  The conditions under which no evaluation of the evidence raises an exception: the
  measurement has a first intensity, the window is not empty and holds no error equal to
  0, and the prior has at least two points.
\<close>

definition evidence_defined :: "measurement \<Rightarrow> nat \<Rightarrow> bool" where
  "evidence_defined Ep N =
     (sasm_i Ep \<noteq> [] \<and> window_i Ep \<noteq> [] \<and> \<not> list_ex (\<lambda>x. x = 0) (window_err Ep) \<and> 2 \<le> N)"

text \<open>A measurement of one point at \<open>q = 0\<close> with intensity 1 and the given error.\<close>

definition one_point :: "real \<Rightarrow> measurement" where
  "one_point err =
     \<lparr>sasm_i = [1], sasm_q = [0], sasm_err = [err], selected_q_range = (0, 1),
      filename = Some ''point.dat''\<rparr>"

text \<open>
  Inputs on which no cell of a grid search raises an exception: the conditions above,
  errors that are positive, so that every divisor \<open>bkk[0,k] + alpha\<close> of the solver is
  positive, and positive bounds for \<open>alpha\<close>, so that their logarithms are numbers.
\<close>

definition search_input_valid :: "measurement \<Rightarrow> nat \<Rightarrow> real \<Rightarrow> real \<Rightarrow> bool" where
  "search_input_valid Exp N alphamin alphamax =
     (evidence_defined Exp N \<and> list_all (\<lambda>x. 0 < x) (window_err Exp)
      \<and> 0 < alphamin \<and> 0 < alphamax)"

section \<open>The IFT result\<close>

text \<open>The dictionary \<open>bift_info\<close>; an entry that one of the two callers leaves out is \<open>None\<close>.\<close>

record bift_info =
  info_alpha :: real
  info_dmax :: real
  info_I0 :: real
  info_ChiSquared :: real
  info_Rg :: real
  info_post :: "real option"
  info_filename :: string
  info_algorithm :: string
  info_dmax_points :: "vec option"
  info_alpha_points :: "vec option"
  info_all_posteriors :: "mat option"

text \<open>
  Modelled from the spec: the class \<open>IFTM\<close> of module SASM, which the source
  constructs and which is not among the source files. The spec gives the IFT artifact
  the ordered sequences \<open>p\<close>, \<open>r\<close>, \<open>err_p\<close>, \<open>i_orig\<close>, \<open>q_orig\<close>, \<open>err_orig\<close>,
  \<open>fit\<close> and a metadata bag; the constructor is taken to store its eight arguments in
  this order.
\<close>

record ift =
  ift_p :: vec
  ift_r :: vec
  ift_err_p :: vec
  ift_i_orig :: vec
  ift_q_orig :: vec
  ift_err_orig :: vec
  ift_fit :: vec
  ift_info :: bift_info

definition IFTM :: "vec \<Rightarrow> vec \<Rightarrow> vec \<Rightarrow> vec \<Rightarrow> vec \<Rightarrow> vec \<Rightarrow> vec \<Rightarrow> bift_info \<Rightarrow> ift" where
  "IFTM p r err i_orig q_orig err_orig fit info =
     \<lparr>ift_p = p, ift_r = r, ift_err_p = err, ift_i_orig = i_orig, ift_q_orig = q_orig,
      ift_err_orig = err_orig, ift_fit = fit, ift_info = info\<rparr>"

text \<open>
  \<open>os.path.splitext(name)[0]\<close>: the name up to its last dot, when that dot lies in the
  last path component behind a character that is not a dot.
\<close>

definition rfind :: "char \<Rightarrow> string \<Rightarrow> int" where
  "rfind c p = (case filter (\<lambda>k. p ! k = c) (rev [0..<length p]) of [] \<Rightarrow> - 1 | k # _ \<Rightarrow> int k)"

definition splitext_root :: "string \<Rightarrow> string" where
  "splitext_root p =
     (let sepIndex = rfind (CHR ''/'') p; dotIndex = rfind (CHR ''.'') p
      in if dotIndex > sepIndex
            \<and> list_ex (\<lambda>k. p ! k \<noteq> CHR ''.'') [nat (sepIndex + 1)..<nat dotIndex]
         then take (nat dotIndex) p else p)"

text \<open>
  The block that \<open>SingleSolve\<close> and \<open>doBift\<close> both run on the solution \<open>Pr\<close>: the
  fit, the r vector with two more points than \<open>Pr\<close>, the zero put before and behind
  \<open>Pr\<close>, the division by \<open>4 pi dr\<close>, the two integrals, \<open>Rg\<close> and \<open>I0\<close>.
  \<open>r[2]\<close> exists because \<open>r\<close> has at least two points more than \<open>Pr\<close>, which has
  at least none.
\<close>

record report =
  rep_Fit :: vec
  rep_r :: vec
  rep_Pr :: vec
  rep_I0 :: real
  rep_Rg :: real

definition make_report :: "vec \<Rightarrow> mat \<Rightarrow> real \<Rightarrow> error + report" where
  "make_report Pr T dmaxfin =
     (let Fit = map (\<lambda>i. \<Sum>k\<leftarrow>[0..<length Pr]. Pr ! k * T ! i ! k) [0..<length T];
          r = linspace 0 dmaxfin (length Pr + 2)
      in if length r \<le> 2 then Inl IndexError
         else
           let dr = r ! 2 - r ! 1;
               Pr1 = (0 # Pr) @ [0];
               Pr2 = map (\<lambda>x. x / (4 * pi * dr)) Pr1;
               area = trapz Pr2 r;
               area2 = trapz (map (\<lambda>k. Pr2 ! k * r ! k ^ 2) [0..<length Pr2]) r;
               RgSq = area2 / (2 * area);
               Rg = sqrt \<bar>RgSq\<bar>;
               I0 = area * 4 * pi
           in Inr \<lparr>rep_Fit = Fit, rep_r = r, rep_Pr = Pr2, rep_I0 = I0, rep_Rg = Rg\<rparr>)"

text \<open>
  The invariants the specification states for the IFT artifact of an \<open>N\<close>-point
  solve with largest distance \<open>dmax\<close>: \<open>p\<close> has \<open>N + 2\<close> entries, the first and
  the last equal to 0; \<open>r\<close> is as long as \<open>p\<close> and strictly increasing from 0 to
  \<open>dmax\<close>; \<open>fit\<close> is as long as the windowed \<open>q\<close>.
\<close>

definition ift_invariants :: "nat \<Rightarrow> real \<Rightarrow> measurement \<Rightarrow> ift \<Rightarrow> bool" where
  "ift_invariants N dmax Ep a =
     (length (ift_p a) = N + 2 \<and> ift_p a ! 0 = 0 \<and> ift_p a ! (N + 1) = 0
      \<and> length (ift_r a) = length (ift_p a)
      \<and> sorted_wrt (<) (ift_r a) \<and> hd (ift_r a) = 0 \<and> last (ift_r a) = dmax
      \<and> ift_q_orig a = window_q Ep \<and> length (ift_fit a) = length (ift_q_orig a))"

section \<open>SingleSolve\<close>

definition SingleSolve :: "real \<Rightarrow> real \<Rightarrow> measurement \<Rightarrow> nat \<Rightarrow> error + ift" where
  "SingleSolve alpha dmax Ep N =
     (let alphafin = alpha; dmaxfin = dmax in
      case solve_at alphafin dmaxfin Ep N of
        Inl e \<Rightarrow> Inl e
      | Inr ((Pr, post, c), T) \<Rightarrow>
          (case make_report Pr T dmaxfin of
             Inl e \<Rightarrow> Inl e
           | Inr rep \<Rightarrow>
               (case filename Ep of
                  None \<Rightarrow> Inl AttributeError
                | Some name \<Rightarrow>
                    let bift_info =
                          \<lparr>info_alpha = alphafin, info_dmax = dmaxfin, info_I0 = rep_I0 rep,
                           info_ChiSquared = c, info_Rg = rep_Rg rep, info_post = Some post,
                           info_filename = splitext_root name @ ''.ift'',
                           info_algorithm = ''BIFT'',
                           info_dmax_points = None, info_alpha_points = None,
                           info_all_posteriors = None\<rparr>
                    in Inr (IFTM (rep_Pr rep) (rep_r rep)
                              (replicate (length (rep_Pr rep)) 1)
                              (window_i Ep) (window_q Ep) (window_err Ep)
                              (rep_Fit rep) bift_info))))"


section \<open>The simplex minimiser with cancellation\<close>

text \<open>
  The cancellation flag \<open>RAWGlobals.cancel_bift\<close> is set from outside the search. A
  search sees it only when it reads it, so the flag is a function from the number of
  earlier reads to the value read.
\<close>

type_synonym cancel_flag = "nat \<Rightarrow> bool"

definition vadd :: "vec \<Rightarrow> vec \<Rightarrow> vec" where
  "vadd x y = map (\<lambda>k. x ! k + y ! k) [0..<length x]"

definition vsub :: "vec \<Rightarrow> vec \<Rightarrow> vec" where
  "vsub x y = map (\<lambda>k. x ! k - y ! k) [0..<length x]"

definition smul :: "real \<Rightarrow> vec \<Rightarrow> vec" where
  "smul a x = map (\<lambda>v. a * v) x"

text \<open>The objective at a list of points, one call after the other.\<close>

fun eval_all :: "(vec \<Rightarrow> error + real) \<Rightarrow> vec list \<Rightarrow> error + vec" where
  "eval_all func [] = Inr []"
| "eval_all func (x # xs) =
     (case func x of
        Inl e \<Rightarrow> Inl e
      | Inr v \<Rightarrow> (case eval_all func xs of Inl e \<Rightarrow> Inl e | Inr vs \<Rightarrow> Inr (v # vs)))"

record fmin_state =
  fcalls :: nat
  sim :: mat
  fsim :: vec
  iterations :: nat

text \<open>
  \<open>ind = np.argsort(fsim)\<close> followed by \<open>np.take\<close> on \<open>fsim\<close> and \<open>sim\<close>: both
  in ascending order of \<open>fsim\<close>. The simplex of the search has three vertices, for
  which numpy's sort keeps equal values in their order.
\<close>

definition sort_simplex :: "fmin_state \<Rightarrow> fmin_state" where
  "sort_simplex st =
     (let ps = sort_key fst (zip (fsim st) (sim st))
      in st\<lparr>fsim := map fst ps, sim := map snd ps\<rparr>)"

text \<open>
  The start of \<open>fmin\<close>: the simplex of \<open>x0\<close> and one more vertex for each
  coordinate, the objective at each, and the first sort.
\<close>

definition fmin_init :: "(vec \<Rightarrow> error + real) \<Rightarrow> vec \<Rightarrow> error + fmin_state" where
  "fmin_init func x0 =
     (let N = length x0;
          nonzdelt = 5 / 100;
          zdelt = 25 / 100000;
          ys = map (\<lambda>k. x0[k := (if x0 ! k \<noteq> 0 then (1 + nonzdelt) * x0 ! k else zdelt)])
                   [0..<N]
      in case eval_all func (x0 # ys) of
           Inl e \<Rightarrow> Inl e
         | Inr fs \<Rightarrow>
             Inr (sort_simplex \<lparr>fcalls = N + 1, sim = x0 # ys, fsim = fs, iterations = 1\<rparr>))"

text \<open>The test that ends the iteration when the simplex has become small.\<close>

definition fmin_converged :: "real \<Rightarrow> real \<Rightarrow> fmin_state \<Rightarrow> bool" where
  "fmin_converged xtol ftol st =
     (maximum (concat (map (\<lambda>row. map (\<lambda>v. \<bar>v\<bar>) (vsub row (sim st ! 0))) (tl (sim st)))) \<le> xtol
      \<and> maximum (map (\<lambda>f. \<bar>fsim st ! 0 - f\<bar>) (tl (fsim st))) \<le> ftol)"

text \<open>
  One iteration after the two tests: reflection, then expansion, contraction, inside
  contraction or shrinking, and the sort. \<open>sim[-1]\<close> is the last vertex and
  \<open>fsim[-2]\<close> the value before the last.
\<close>

definition set_last :: "vec \<Rightarrow> real \<Rightarrow> fmin_state \<Rightarrow> fmin_state" where
  "set_last x fx st =
     st\<lparr>sim := (sim st)[length (sim st) - 1 := x],
        fsim := (fsim st)[length (fsim st) - 1 := fx]\<rparr>"

definition fmin_shrink :: "(vec \<Rightarrow> error + real) \<Rightarrow> fmin_state \<Rightarrow> error + fmin_state" where
  "fmin_shrink func st =
     (let sigma = 5 / 10;
          N = length (sim st) - 1;
          new = map (\<lambda>j. vadd (sim st ! 0) (smul sigma (vsub (sim st ! j) (sim st ! 0))))
                    [1..<N + 1]
      in case eval_all func new of
           Inl e \<Rightarrow> Inl e
         | Inr fs \<Rightarrow>
             Inr (st\<lparr>sim := sim st ! 0 # new, fsim := fsim st ! 0 # fs,
                     fcalls := fcalls st + N\<rparr>))"

definition fmin_step :: "(vec \<Rightarrow> error + real) \<Rightarrow> fmin_state \<Rightarrow> error + fmin_state" where
  "fmin_step func st =
     (let rho = 1; chi = 2; psi = 5 / 10;
          N = length (sim st) - 1;
          last_x = last (sim st);
          xbar = map (\<lambda>c. (\<Sum>row\<leftarrow>butlast (sim st). row ! c) / real N) [0..<N];
          xr = vsub (smul (1 + rho) xbar) (smul rho last_x)
      in case func xr of
           Inl e \<Rightarrow> Inl e
         | Inr fxr \<Rightarrow>
             let st1 = st\<lparr>fcalls := fcalls st + 1\<rparr> in
             map_sum id sort_simplex
               (if fxr < fsim st ! 0 then
                  (let xe = vsub (smul (1 + rho * chi) xbar) (smul (rho * chi) last_x)
                   in case func xe of
                        Inl e \<Rightarrow> Inl e
                      | Inr fxe \<Rightarrow>
                          let st2 = st1\<lparr>fcalls := fcalls st1 + 1\<rparr>
                          in if fxe < fxr then Inr (set_last xe fxe st2)
                             else Inr (set_last xr fxr st2))
                else if fxr < fsim st ! (length (fsim st) - 2) then Inr (set_last xr fxr st1)
                else if fxr < last (fsim st) then
                  (let xc = vsub (smul (1 + psi * rho) xbar) (smul (psi * rho) last_x)
                   in case func xc of
                        Inl e \<Rightarrow> Inl e
                      | Inr fxc \<Rightarrow>
                          let st2 = st1\<lparr>fcalls := fcalls st1 + 1\<rparr>
                          in if fxc \<le> fxr then Inr (set_last xc fxc st2)
                             else fmin_shrink func st2)
                else
                  (let xcc = vadd (smul (1 - psi) xbar) (smul psi last_x)
                   in case func xcc of
                        Inl e \<Rightarrow> Inl e
                      | Inr fxcc \<Rightarrow>
                          let st2 = st1\<lparr>fcalls := fcalls st1 + 1\<rparr>
                          in if fxcc < last (fsim st) then Inr (set_last xcc fxcc st2)
                             else fmin_shrink func st2)))"

text \<open>
  The loop of \<open>fmin\<close>. The flag is read at the start of every iteration, iteration
  \<open>n\<close> making read \<open>n - 1\<close> of the minimiser; \<open>None\<close> is the bare \<open>return\<close> of a
  cancelled search, and otherwise the best vertex is returned.
\<close>

function fmin_loop ::
  "(vec \<Rightarrow> error + real) \<Rightarrow> cancel_flag \<Rightarrow> nat \<Rightarrow> nat \<Rightarrow> real \<Rightarrow> real \<Rightarrow> fmin_state
   \<Rightarrow> error + vec option" where
  "fmin_loop func cancel maxfun maxiter xtol ftol st =
     (if fcalls st < maxfun \<and> iterations st < maxiter then
        (if cancel (iterations st - 1) then Inr None
         else if fmin_converged xtol ftol st then Inr (Some (sim st ! 0))
         else case fmin_step func st of
                Inl e \<Rightarrow> Inl e
              | Inr st' \<Rightarrow>
                  fmin_loop func cancel maxfun maxiter xtol ftol
                    (st'\<lparr>iterations := iterations st + 1\<rparr>))
      else Inr (Some (sim st ! 0)))"
  by pat_completeness auto
termination
  by (relation "measure (\<lambda>(func, cancel, maxfun, maxiter, xtol, ftol, st).
                           maxiter - iterations st)") auto

declare fmin_loop.simps [simp del]

text \<open>
  \<open>fmin(func, x0, args, disp=False)\<close> with the defaults of the other arguments:
  \<open>xtol = ftol = 1e-4\<close> and \<open>maxiter = maxfun = 200 N\<close>.
\<close>

definition fmin :: "(vec \<Rightarrow> error + real) \<Rightarrow> cancel_flag \<Rightarrow> vec \<Rightarrow> error + vec option" where
  "fmin func cancel x0 =
     (let N = length x0; maxiter = N * 200; maxfun = N * 200
      in case fmin_init func x0 of
           Inl e \<Rightarrow> Inl e
         | Inr st \<Rightarrow> fmin_loop func cancel maxfun maxiter (1 / 10000) (1 / 10000) st)"

definition fineSearch ::
  "cancel_flag \<Rightarrow> measurement \<Rightarrow> nat \<Rightarrow> real \<Rightarrow> real \<Rightarrow> error + (real \<times> real) option" where
  "fineSearch cancel Ep N alpha dmax =
     (case fmin (fineGetEvidence Ep N) cancel [alpha, dmax] of
        Inl e \<Rightarrow> Inl e
      | Inr None \<Rightarrow> Inr None
      | Inr (Some opt) \<Rightarrow> Inr (Some (exp (opt ! 0), opt ! 1)))"


section \<open>doBift\<close>

text \<open>What \<open>doBift\<close> puts on the queue.\<close>

record bift_status =
  status_alpha :: real
  status_evidence :: real
  status_chi :: real
  status_dmax :: real
  status_spoint :: nat
  status_tpoint :: nat
  status_status :: "string option"

datatype queue_item = Update bift_status | Canceled | Failed

text \<open>The variables of the grid search, with the queue.\<close>

record grid_state =
  finalpost :: real
  bestc :: real
  all_posteriors :: mat
  dmax_idx :: nat
  alpha_idx :: nat
  current_point :: nat
  alphafin :: real
  dmaxfin :: real
  queue :: "queue_item list"

text \<open>How a loop over grid cells ends: by running out of cells, by the \<open>return None\<close>
  of a cancelled search, or by an exception of the evaluation.\<close>

datatype flow = Next | Cancelled | Raised error

text \<open>
  The inner loop, over the logarithms of \<open>alpha\<close>. The flag is read once before each
  cell, so the number of earlier reads is \<open>current_point\<close>.
\<close>

fun alpha_loop ::
  "cancel_flag \<Rightarrow> measurement \<Rightarrow> nat \<Rightarrow> nat \<Rightarrow> real \<Rightarrow> real list \<Rightarrow> grid_state
   \<Rightarrow> grid_state \<times> flow" where
  "alpha_loop cancel Ep N total_points each_dmax [] st = (st, Next)"
| "alpha_loop cancel Ep N total_points each_dmax (each_alpha # rest) st =
     (if cancel (current_point st) then (st\<lparr>queue := queue st @ [Canceled]\<rparr>, Cancelled)
      else
        case GetEvidence each_alpha each_dmax Ep N of
          Inl e \<Rightarrow> (st, Raised e)
        | Inr (post, c, result) \<Rightarrow>
            let bift_status =
                  \<lparr>status_alpha = each_alpha, status_evidence = post, status_chi = c,
                   status_dmax = each_dmax, status_spoint = current_point st,
                   status_tpoint = total_points, status_status = None\<rparr>;
                st1 = st\<lparr>queue := queue st @ [Update bift_status]\<rparr>;
                st2 = (if post < finalpost st1
                       then st1\<lparr>finalpost := post, alphafin := exp each_alpha,
                                dmaxfin := each_dmax\<rparr>
                       else st1);
                st3 = (if c < bestc st2 then st2\<lparr>bestc := c\<rparr> else st2);
                st4 = st3\<lparr>all_posteriors :=
                             (all_posteriors st3)
                               [dmax_idx st3 :=
                                  (all_posteriors st3 ! dmax_idx st3)[alpha_idx st3 := post]],
                          alpha_idx := alpha_idx st3 + 1,
                          current_point := current_point st3 + 1\<rparr>
            in alpha_loop cancel Ep N total_points each_dmax rest st4)"

text \<open>The outer loop, over the values of \<open>dmax\<close>.\<close>

fun dmax_loop ::
  "cancel_flag \<Rightarrow> measurement \<Rightarrow> nat \<Rightarrow> nat \<Rightarrow> real list \<Rightarrow> real list \<Rightarrow> grid_state
   \<Rightarrow> grid_state \<times> flow" where
  "dmax_loop cancel Ep N total_points alpha_points [] st = (st, Next)"
| "dmax_loop cancel Ep N total_points alpha_points (each_dmax # rest) st =
     (case alpha_loop cancel Ep N total_points each_dmax alpha_points (st\<lparr>alpha_idx := 0\<rparr>) of
        (st', Next) \<Rightarrow>
          dmax_loop cancel Ep N total_points alpha_points rest (st'\<lparr>dmax_idx := dmax_idx st' + 1\<rparr>)
      | (st', Cancelled) \<Rightarrow> (st', Cancelled)
      | (st', Raised e) \<Rightarrow> (st', Raised e))"

text \<open>The variables of \<open>doBift\<close> before the grid search, with an empty queue.\<close>

definition grid_start :: "vec \<Rightarrow> vec \<Rightarrow> grid_state" where
  "grid_start dmax_points alpha_points =
     \<lparr>finalpost = 10 ^ 20, bestc = 10 ^ 22,
      all_posteriors = replicate (length dmax_points) (replicate (length alpha_points) 0),
      dmax_idx = 0, alpha_idx = 0, current_point = 0,
      alphafin = - 1, dmaxfin = - 1, queue = []\<rparr>"

text \<open>
  \<open>doBift\<close> from its start to the end of the grid search. The queue is empty at the
  start here; the items the search puts are the items of the result.
\<close>

definition doBift_grid ::
  "cancel_flag \<Rightarrow> measurement \<Rightarrow> nat \<Rightarrow> real \<Rightarrow> real \<Rightarrow> nat \<Rightarrow> real \<Rightarrow> real \<Rightarrow> nat
   \<Rightarrow> grid_state \<times> flow" where
  "doBift_grid cancel Exp N alphamax alphamin alphaN maxDmax minDmax dmaxN =
     (let alpha_points = linspace (ln alphamin) (ln alphamax) alphaN;
          dmax_points = linspace minDmax maxDmax dmaxN;
          total_points = length dmax_points * length alpha_points
      in dmax_loop cancel Exp N total_points alpha_points dmax_points
           (grid_start dmax_points alpha_points))"

text \<open>
  The end of \<open>doBift\<close>, from the solve at the values \<open>alphafin\<close> and
  \<open>dmaxfin\<close> of the fine search to the \<open>return\<close>: the queue so far is
  \<open>queue1\<close>, and the result is the queue and what the call returns.
\<close>

definition doBift_result ::
  "measurement \<Rightarrow> nat \<Rightarrow> vec \<Rightarrow> vec \<Rightarrow> nat \<Rightarrow> grid_state \<Rightarrow> queue_item list \<Rightarrow> real \<Rightarrow> real
   \<Rightarrow> queue_item list \<times> (error + ift option)" where
  "doBift_result Ep N alpha_points dmax_points total_points st queue1 alphafin' dmaxfin' =
     (case solve_at alphafin' dmaxfin' Ep N of
        Inl e \<Rightarrow> (queue1, Inl e)
      | Inr ((Pr, post, c), T) \<Rightarrow>
          (case make_report Pr T dmaxfin' of
             Inl e \<Rightarrow> (queue1, Inl e)
           | Inr rep \<Rightarrow>
               (case filename Ep of
                  None \<Rightarrow> (queue1, Inl AttributeError)
                | Some name \<Rightarrow>
                    (let bift_info =
                           \<lparr>info_alpha = alphafin', info_dmax = dmaxfin',
                            info_I0 = rep_I0 rep, info_ChiSquared = c,
                            info_Rg = rep_Rg rep, info_post = None,
                            info_filename = splitext_root name @ ''.ift'',
                            info_algorithm = ''BIFT'',
                            info_dmax_points = Some dmax_points,
                            info_alpha_points = Some alpha_points,
                            info_all_posteriors = Some (all_posteriors st)\<rparr>;
                         ift_sasm =
                           IFTM (rep_Pr rep) (rep_r rep)
                             (replicate (length (rep_Pr rep)) 1)
                             (window_i Ep) (window_q Ep) (window_err Ep)
                             (rep_Fit rep) bift_info;
                         bift_status =
                           \<lparr>status_alpha = alphafin', status_evidence = post,
                            status_chi = c, status_dmax = dmaxfin',
                            status_spoint = current_point st,
                            status_tpoint = total_points,
                            status_status = None\<rparr>
                     in (queue1 @ [Update bift_status], Inr (Some ift_sasm))))))"

text \<open>
  \<open>doBift\<close> after the grid search: the test for an empty outcome, the record that
  announces the fine search, the fine search, which reads the flag after the
  \<open>total_points\<close> reads of the grid search, and the end above.
\<close>

definition doBift_finish ::
  "cancel_flag \<Rightarrow> measurement \<Rightarrow> nat \<Rightarrow> vec \<Rightarrow> vec \<Rightarrow> nat \<Rightarrow> grid_state
   \<Rightarrow> queue_item list \<times> (error + ift option)" where
  "doBift_finish cancel Ep N alpha_points dmax_points total_points st =
     (if alphafin st = - 1 \<and> dmaxfin st = - 1 then (queue st @ [Failed], Inr None)
      else
        (let bift_status =
               \<lparr>status_alpha = alphafin st, status_evidence = finalpost st,
                status_chi = bestc st, status_dmax = dmaxfin st,
                status_spoint = current_point st, status_tpoint = total_points,
                status_status = Some ''Running a fine search''\<rparr>;
             queue1 = queue st @ [Update bift_status]
         in (case fineSearch (\<lambda>n. cancel (total_points + n)) Ep N
                    (ln (alphafin st)) (dmaxfin st) of
               Inl e \<Rightarrow> (queue1, Inl e)
             | Inr None \<Rightarrow> (queue1 @ [Canceled], Inr None)
             | Inr (Some (alphafin', dmaxfin')) \<Rightarrow>
                 doBift_result Ep N alpha_points dmax_points total_points st queue1
                   alphafin' dmaxfin')))"

text \<open>
  \<open>doBift\<close>. The result is the queue and what the call returns: an exception, or
  \<open>None\<close>, or the IFT result.
\<close>

definition doBift ::
  "cancel_flag \<Rightarrow> measurement \<Rightarrow> nat \<Rightarrow> real \<Rightarrow> real \<Rightarrow> nat \<Rightarrow> real \<Rightarrow> real \<Rightarrow> nat
   \<Rightarrow> queue_item list \<times> (error + ift option)" where
  "doBift cancel Exp N alphamax alphamin alphaN maxDmax minDmax dmaxN =
     (let Ep = Exp;
          alpha_points = linspace (ln alphamin) (ln alphamax) alphaN;
          dmax_points = linspace minDmax maxDmax dmaxN;
          total_points = length dmax_points * length alpha_points
      in (case doBift_grid cancel Exp N alphamax alphamin alphaN maxDmax minDmax dmaxN of
            (st, Cancelled) \<Rightarrow> (queue st, Inr None)
          | (st, Raised e) \<Rightarrow> (queue st, Inl e)
          | (st, Next) \<Rightarrow>
              doBift_finish cancel Ep N alpha_points dmax_points total_points st))"

section \<open>Properties of the shifted identity\<close>

lemma those_map_Some:
  "(\<And>x. x \<in> set xs \<Longrightarrow> f x = Some (g x)) \<Longrightarrow> those (map f xs) = Some (map g xs)"
  by (induction xs) auto

lemma length_eye [simp]: "length (eye n) = n"
  by (simp add: eye_def)

lemma ncols_nth0: "0 < length a \<Longrightarrow> ncols a = length (a ! 0)"
  by (auto simp: ncols_def)

lemma ncols_eye [simp]: "ncols (eye n) = n"
  by (cases "n = 0") (simp_all add: ncols_nth0, simp_all add: eye_def ncols_def)

lemma eye_nth: "r < n \<Longrightarrow> c < n \<Longrightarrow> eye n ! r ! c = (if r = c then 1 else 0)"
  by (simp add: eye_def)

lemma length_flatten_eye [simp]: "length (flatten (eye n)) = n * n"
  by (simp add: flatten_def)

lemma div_less_square: "j < n * n \<Longrightarrow> j div n < (n::nat)"
  by (simp add: less_mult_imp_div_less)

lemma flatten_eye_nth:
  assumes "j < n * n"
  shows "flatten (eye n) ! j = (if j div n = j mod n then 1 else 0)"
proof -
  have n: "0 < n" using assms by (cases n) auto
  have "j div n < n" using assms by (rule div_less_square)
  moreover have "j mod n < n" using n by simp
  ultimately show ?thesis using assms by (simp add: flatten_def eye_nth)
qed

lemma reshape_nth: "r < n0 \<Longrightarrow> c < n1 \<Longrightarrow> reshape n0 n1 v ! r ! c = v ! (r * n1 + c)"
  by (simp add: reshape_def)

lemma length_reshape [simp]: "length (reshape n0 n1 v) = n0"
  by (simp add: reshape_def)

lemma length_reshape_row [simp]: "r < n0 \<Longrightarrow> length (reshape n0 n1 v ! r) = n1"
  by (simp add: reshape_def)

lemma ncols_reshape [simp]: "0 < n0 \<Longrightarrow> ncols (reshape n0 n1 v) = n1"
  by (simp add: ncols_nth0)


lemma np_get_nat: "i < length b \<Longrightarrow> np_get b (int i) = Some (b ! i)"
  by (simp add: np_get_def)

lemma np_get_last: "0 < length b \<Longrightarrow> np_get b (- 1) = Some (b ! (length b - 1))"
  by (simp add: np_get_def Let_def nat_diff_distrib')

lemma shl_those:
  "those (map (\<lambda>i. if int i < int (length b) - 1
                    then np_get b (1 + int i)
                    else np_get b (int (length b) - 1 - int i - 1))
              [0..<length b]) = Some (shl b)"
  unfolding shl_def
proof (rule those_map_Some)
  fix i assume "i \<in> set [0..<length b]"
  then have i: "i < length b" by simp
  show "(if int i < int (length b) - 1 then np_get b (1 + int i)
         else np_get b (int (length b) - 1 - int i - 1)) =
        Some (if Suc i < length b then b ! Suc i else b ! (length b - 1))"
  proof (cases "Suc i < length b")
    case True
    have "1 + int i = int (Suc i)" by simp
    then have "np_get b (1 + int i) = Some (b ! Suc i)"
      using np_get_nat [OF True] by simp
    moreover have "int i < int (length b) - 1" using True by linarith
    ultimately show ?thesis using True by simp
  next
    case False
    with i have e: "Suc i = length b" by simp
    then have "\<not> int i < int (length b) - 1" by linarith
    moreover have "int (length b) - 1 - int i - 1 = - 1" using e by linarith
    moreover have "0 < length b" using i by linarith
    then have "np_get b (- 1) = Some (b ! (length b - 1))"
      by (rule np_get_last)
    ultimately show ?thesis using False by simp
  qed
qed

lemma shr_those:
  "those (map (\<lambda>i. np_get b (int i - 1)) [0..<length b]) = Some (shr b)"
  unfolding shr_def
proof (rule those_map_Some)
  fix i assume "i \<in> set [0..<length b]"
  then have i: "i < length b" by simp
  show "np_get b (int i - 1) = Some (if 0 < i then b ! (i - 1) else b ! (length b - 1))"
  proof (cases "0 < i")
    case True
    then have "int i - 1 = int (i - 1)" by linarith
    moreover have "i - 1 < length b" using i by simp
    ultimately show ?thesis using True np_get_nat [of "i - 1" b] by simp
  next
    case False
    then have "int i - 1 = - 1" by simp
    moreover have "0 < length b" using i by linarith
    then have "np_get b (- 1) = Some (b ! (length b - 1))"
      by (rule np_get_last)
    ultimately show ?thesis using False by simp
  qed
qed


lemma length_flatten: "length a * ncols a = length (flatten a)"
  by (simp add: flatten_def)

lemma shiftLeft_one: "shiftLeft a 1 = Some (reshape (length a) (ncols a) (shl (flatten a)))"
  unfolding shiftLeft_def Let_def length_flatten shl_those by simp

lemma shiftRight_one: "shiftRight a 1 = Some (reshape (length a) (ncols a) (shr (flatten a)))"
  unfolding shiftRight_def Let_def length_flatten shr_those by simp

lemma idx_less: "r < n \<Longrightarrow> c < n \<Longrightarrow> r * n + c < n * (n::nat)"
proof -
  assume r: "r < n" and c: "c < n"
  have "r * n + c < r * n + n" using c by simp
  also have "\<dots> = Suc r * n" by simp
  also have "\<dots> \<le> n * n" using r by (metis Suc_leI mult_le_mono1)
  finally show ?thesis .
qed

lemma idx_div: "c < n \<Longrightarrow> (r * n + c) div n = (r::nat)"
  by simp

lemma idx_mod: "c < n \<Longrightarrow> (r * n + c) mod n = (c::nat)"
  by simp

lemma idx_last:
  assumes r: "r < n" and c: "c < (n::nat)"
  shows "(Suc (r * n + c) < n * n) = (\<not> (Suc r = n \<and> Suc c = n))"
proof (cases "Suc r = n")
  case True
  then have "n * n = Suc r * n" by simp
  then have "n * n = r * n + n" by simp
  then show ?thesis using True c by auto
next
  case False
  then have "Suc (Suc r) \<le> n" using r by simp
  then have "Suc (Suc r) * n \<le> n * n" by (rule mult_le_mono1)
  moreover have "Suc (r * n + c) < Suc (Suc r) * n" using c by simp
  ultimately show ?thesis using False by simp
qed

lemma mat1_nth:
  assumes r: "r < n" and c: "c < n"
  shows "reshape n n (shl (flatten (eye n))) ! r ! c =
         (if Suc r = n \<and> Suc c = n then 1 else if r = Suc c then 1 else 0)"
proof -
  let ?b = "flatten (eye n)"
  have j: "r * n + c < n * n" using r c by (rule idx_less)
  have "reshape n n (shl ?b) ! r ! c = shl ?b ! (r * n + c)"
    using r c by (rule reshape_nth)
  also have "\<dots> = (if Suc (r * n + c) < n * n then ?b ! Suc (r * n + c) else ?b ! (n * n - 1))"
    using j by (simp add: shl_def)
  finally have step: "reshape n n (shl ?b) ! r ! c =
      (if Suc (r * n + c) < n * n then ?b ! Suc (r * n + c) else ?b ! (n * n - 1))" .
  show ?thesis
  proof (cases "Suc r = n \<and> Suc c = n")
    case True
    then have "\<not> Suc (r * n + c) < n * n" using idx_last [OF r c] by simp
    moreover have "r = c" "n = Suc c" using True by simp_all
    then have "n * n - 1 = r * n + c" by simp
    moreover have "?b ! (r * n + c) = 1" using True j r c by (simp add: flatten_eye_nth)
    ultimately show ?thesis using step True by simp
  next
    case False
    then have lt: "Suc (r * n + c) < n * n" using idx_last [OF r c] by simp
    have "?b ! Suc (r * n + c) = (if r = Suc c then 1 else 0)"
    proof (cases "Suc c = n")
      case True
      then have e: "Suc (r * n + c) = Suc r * n + 0" by simp
      have "0 < n" using r by simp
      then have "(Suc r * n + 0) div n = Suc r" "(Suc r * n + 0) mod n = 0"
        by (rule idx_div, rule idx_mod)
      then show ?thesis using lt True r unfolding e by (simp add: flatten_eye_nth)
    next
      case F: False
      then have sc: "Suc c < n" using c by simp
      have e: "Suc (r * n + c) = r * n + Suc c" by simp
      have "(r * n + Suc c) div n = r" "(r * n + Suc c) mod n = Suc c"
        using sc by (rule idx_div, rule idx_mod)
      then show ?thesis using lt unfolding e by (simp add: flatten_eye_nth)
    qed
    then show ?thesis using step lt False by simp
  qed
qed

lemma mat2_nth:
  assumes r: "r < n" and c: "c < n"
  shows "reshape n n (shr (flatten (eye n))) ! r ! c =
         (if r = 0 \<and> c = 0 then 1 else if c = Suc r then 1 else 0)"
proof -
  let ?b = "flatten (eye n)"
  have j: "r * n + c < n * n" using r c by (rule idx_less)
  have "reshape n n (shr ?b) ! r ! c = shr ?b ! (r * n + c)"
    using r c by (rule reshape_nth)
  also have "\<dots> = (if 0 < r * n + c then ?b ! (r * n + c - 1) else ?b ! (n * n - 1))"
    using j by (simp add: shr_def)
  finally have step: "reshape n n (shr ?b) ! r ! c =
      (if 0 < r * n + c then ?b ! (r * n + c - 1) else ?b ! (n * n - 1))" .
  have n: "0 < n" using r by simp
  show ?thesis
  proof (cases "r = 0 \<and> c = 0")
    case True
    obtain k where k: "n = Suc k" using n by (cases n) auto
    have e: "n * n - 1 = k * n + k" using k by simp
    have "k * n + k < n * n" using k by (intro idx_less) simp_all
    moreover have "k < n" using k by simp
    then have "(k * n + k) div n = k" "(k * n + k) mod n = k"
      by (rule idx_div, rule idx_mod)
    ultimately have "?b ! (n * n - 1) = 1" unfolding e by (simp add: flatten_eye_nth)
    then show ?thesis using step True by simp
  next
    case False
    then have pos: "0 < r * n + c" using n by auto
    have lt: "r * n + c - 1 < n * n" using j by simp
    have "?b ! (r * n + c - 1) = (if c = Suc r then 1 else 0)"
    proof (cases "c = 0")
      case True
      with False obtain r' where r': "r = Suc r'" by (cases r) auto
      obtain k where k: "n = Suc k" using n by (cases n) auto
      have e: "r * n + c - 1 = r' * n + k" using True r' k by simp
      have "k < n" using k by simp
      then have "(r' * n + k) div n = r'" "(r' * n + k) mod n = k"
        by (rule idx_div, rule idx_mod)
      moreover have "r' \<noteq> k" using r r' k by simp
      ultimately show ?thesis using lt True unfolding e by (simp add: flatten_eye_nth)
    next
      case F: False
      then obtain c' where c': "c = Suc c'" by (cases c) auto
      then have "r * n + c - 1 = r * n + c'" by simp
      then have "(r * n + c - 1) div n = r" "(r * n + c - 1) mod n = c'"
        using c c' by simp_all
      then show ?thesis using lt c' by (auto simp add: flatten_eye_nth)
    qed
    then show ?thesis using step pos False by simp
  qed
qed

lemma set_entry_nth:
  "set_entry a r c v = Some a' \<Longrightarrow> r' < length a \<Longrightarrow> c' < length (a ! r') \<Longrightarrow>
   a' ! r' ! c' = (if r' = r \<and> c' = c then v else a ! r' ! c')"
  by (auto simp: set_entry_def nth_list_update split: if_splits)

lemma calcPosterior_A_eq:
  assumes n: "0 < n"
  shows "calcPosterior_A n = Some (tridiag n)"
proof -
  let ?m1 = "reshape n n (shl (flatten (eye n)))"
  let ?m2 = "reshape n n (shr (flatten (eye n)))"
  define m1' where "m1' = ?m1[n - 1 := (?m1 ! (n - 1))[n - 1 := 0]]"
  define m2' where "m2' = ?m2[0 := (?m2 ! 0)[0 := 0]]"
  have s1: "shiftLeft (eye n) 1 = Some ?m1" by (simp add: shiftLeft_one)
  have s2: "shiftRight (eye n) 1 = Some ?m2" by (simp add: shiftRight_one)
  have e2: "set_entry ?m2 0 0 0 = Some m2'" using n by (simp add: set_entry_def m2'_def)
  have e1: "set_entry ?m1 (length ?m1 - 1) (ncols ?m1 - 1) 0 = Some m1'"
    using n by (simp add: set_entry_def m1'_def)
  have A: "calcPosterior_A n = Some (combine_A m1' m2')"
    by (simp only: calcPosterior_A_def Let_def s1 s2 e1 e2 option.case)
  have m1': "m1' ! r ! c = (if r = Suc c then 1 else 0)" if "r < n" "c < n" for r c
    using set_entry_nth [OF e1, of r c] that n mat1_nth [OF that] by auto
  have m2': "m2' ! r ! c = (if c = Suc r then 1 else 0)" if "r < n" "c < n" for r c
    using set_entry_nth [OF e2, of r c] that n mat2_nth [OF that] by auto
  have len: "length m1' = n" by (simp add: m1'_def)
  have nc: "ncols m1' = n" using n by (simp add: ncols_nth0 m1'_def nth_list_update)
  have "combine_A m1' m2' = tridiag n"
    unfolding combine_A_def tridiag_def nc len
    by (auto simp: m1' m2' eye_nth)
  with A show ?thesis by simp
qed

section \<open>Properties of the inner solver\<close>

lemma calc_dotsp_keeps:
  "ite (calc_dotsp B N sum_dia st) = ite st"
  "omega (calc_dotsp B N sum_dia st) = omega st"
  "omega_hist (calc_dotsp B N sum_dia st) = omega_hist st"
  "P_vec (calc_dotsp B N sum_dia st) = P_vec st"
  by (simp_all add: calc_dotsp_def Let_def split: prod.splits)

lemma update_P_keeps:
  "ite (update_P N Bmat alpha sum_dia bkk st) = ite st"
  "omega (update_P N Bmat alpha sum_dia bkk st) = omega st"
  "omega_hist (update_P N Bmat alpha sum_dia bkk st) = omega_hist st"
  "length (P_vec (update_P N Bmat alpha sum_dia bkk st)) = N"
  by (simp_all add: update_P_def Let_def)

lemma normalize_dotsp_keeps:
  "ite (normalize_dotsp st) = ite st"
  "omega (normalize_dotsp st) = omega st"
  "omega_hist (normalize_dotsp st) = omega_hist st"
  "P_vec (normalize_dotsp st) = P_vec st"
  by (simp_all add: normalize_dotsp_def Let_def)

lemma reduce_body_fields:
  "ite (reduce_body B N sum_dia st) = ite st"
  "omega (reduce_body B N sum_dia st) = omega st / omegareduction"
  "omega_hist (reduce_body B N sum_dia st) = omega st / omegareduction # omega_hist st"
  "length (P_vec (reduce_body B N sum_dia st)) = N"
  by (simp_all add: reduce_body_def Let_def calc_dotsp_keeps)

lemma hist_inv_reduce_body:
  assumes "hist_inv st" "reduce_guard alpha bkkmax st"
  shows "hist_inv (reduce_body B N sum_dia st)"
proof -
  from assms(2) have g: "omegamin < omega st" by (simp add: reduce_guard_def)
  from assms(1) obtain w ws where h: "omega_hist st = w # ws" "w = omega st"
    by (cases "omega_hist st") (auto simp: hist_inv_def)
  with assms(1) g show ?thesis
    by (simp add: hist_inv_def reduce_body_fields)
qed

lemma reduce_omega_inv:
  "hist_inv st \<Longrightarrow> hist_inv (reduce_omega B N alpha bkkmax sum_dia st)"
proof (induction B N alpha bkkmax sum_dia st rule: reduce_omega.induct)
  case (1 B N alpha bkkmax sum_dia st)
  show ?case
  proof (cases "reduce_guard alpha bkkmax st")
    case True
    then have "hist_inv (reduce_body B N sum_dia st)"
      using "1.prems" by (intro hist_inv_reduce_body)
    with True "1.IH" show ?thesis
      by (simp add: reduce_omega.simps [of B N alpha bkkmax sum_dia st])
  next
    case False
    with "1.prems" show ?thesis
      by (simp add: reduce_omega.simps [of B N alpha bkkmax sum_dia st])
  qed
qed

lemma reduce_omega_ite:
  "ite (reduce_omega B N alpha bkkmax sum_dia st) = ite st"
proof (induction B N alpha bkkmax sum_dia st rule: reduce_omega.induct)
  case (1 B N alpha bkkmax sum_dia st)
  then show ?case
    by (cases "reduce_guard alpha bkkmax st")
       (simp_all add: reduce_omega.simps [of B N alpha bkkmax sum_dia st] reduce_body_fields)
qed

lemma reduce_omega_length:
  "length (P_vec st) = N \<Longrightarrow> length (P_vec (reduce_omega B N alpha bkkmax sum_dia st)) = N"
proof (induction B N alpha bkkmax sum_dia st rule: reduce_omega.induct)
  case (1 B N alpha bkkmax sum_dia st)
  then show ?case
    by (cases "reduce_guard alpha bkkmax st")
       (simp_all add: reduce_omega.simps [of B N alpha bkkmax sum_dia st] reduce_body_fields)
qed

lemma reduce_omega_le:
  "0 < omega st \<Longrightarrow> omega (reduce_omega B N alpha bkkmax sum_dia st) \<le> omega st"
proof (induction B N alpha bkkmax sum_dia st rule: reduce_omega.induct)
  case (1 B N alpha bkkmax sum_dia st)
  show ?case
  proof (cases "reduce_guard alpha bkkmax st")
    case True
    have "0 < omega (reduce_body B N sum_dia st)"
      using "1.prems" by (simp add: reduce_body_fields omegareduction_def)
    with True "1.IH" have "omega (reduce_omega B N alpha bkkmax sum_dia (reduce_body B N sum_dia st))
        \<le> omega (reduce_body B N sum_dia st)" by simp
    also have "\<dots> \<le> omega st"
      using "1.prems" by (simp add: reduce_body_fields omegareduction_def)
    finally show ?thesis using True
      by (simp add: reduce_omega.simps [of B N alpha bkkmax sum_dia st])
  next
    case False
    then show ?thesis by (simp add: reduce_omega.simps [of B N alpha bkkmax sum_dia st])
  qed
qed

lemma bift_body_ite: "ite (bift_body B N Bmat alpha sum_dia bkk bkkmax st) = Suc (ite st)"
  by (simp add: bift_body_def Let_def normalize_dotsp_keeps reduce_omega_ite calc_dotsp_keeps
      update_P_keeps)

lemma bift_body_inv:
  assumes "hist_inv st"
  shows "hist_inv (bift_body B N Bmat alpha sum_dia bkk bkkmax st)"
proof -
  let ?st1 = "if ite st \<noteq> 0 then update_P N Bmat alpha sum_dia bkk st else st"
  let ?st3 = "calc_dotsp B N sum_dia (?st1\<lparr>ite := ite ?st1 + 1\<rparr>)"
  have "hist_inv ?st3"
    using assms by (simp add: hist_inv_def calc_dotsp_keeps update_P_keeps)
  then have "hist_inv (reduce_omega B N alpha bkkmax sum_dia ?st3)"
    by (rule reduce_omega_inv)
  then have "hist_inv (normalize_dotsp (reduce_omega B N alpha bkkmax sum_dia ?st3))"
    by (simp add: hist_inv_def normalize_dotsp_keeps)
  then show ?thesis by (simp add: bift_body_def Let_def)
qed

lemma bift_body_length:
  assumes "length (P_vec st) = N"
  shows "length (P_vec (bift_body B N Bmat alpha sum_dia bkk bkkmax st)) = N"
proof -
  let ?st1 = "if ite st \<noteq> 0 then update_P N Bmat alpha sum_dia bkk st else st"
  let ?st3 = "calc_dotsp B N sum_dia (?st1\<lparr>ite := ite ?st1 + 1\<rparr>)"
  have "length (P_vec ?st3) = N"
    using assms by (simp add: calc_dotsp_keeps update_P_keeps)
  then have "length (P_vec (reduce_omega B N alpha bkkmax sum_dia ?st3)) = N"
    by (rule reduce_omega_length)
  then show ?thesis by (simp add: bift_body_def Let_def normalize_dotsp_keeps)
qed

lemma bift_loop_inv:
  "hist_inv st \<Longrightarrow> hist_inv (bift_loop B N Bmat alpha sum_dia bkk bkkmax st)"
proof (induction B N Bmat alpha sum_dia bkk bkkmax st rule: bift_loop.induct)
  case (1 B N Bmat alpha sum_dia bkk bkkmax st)
  then show ?case
    by (cases "bift_guard st")
       (simp_all add: bift_loop.simps [of B N Bmat alpha sum_dia bkk bkkmax st] bift_body_inv)
qed

lemma bift_loop_length:
  "length (P_vec st) = N \<Longrightarrow> length (P_vec (bift_loop B N Bmat alpha sum_dia bkk bkkmax st)) = N"
proof (induction B N Bmat alpha sum_dia bkk bkkmax st rule: bift_loop.induct)
  case (1 B N Bmat alpha sum_dia bkk bkkmax st)
  then show ?case
    by (cases "bift_guard st")
       (simp_all add: bift_loop.simps [of B N Bmat alpha sum_dia bkk bkkmax st] bift_body_length)
qed

lemma bift_loop_stops: "\<not> bift_guard (bift_loop B N Bmat alpha sum_dia bkk bkkmax st)"
proof (induction B N Bmat alpha sum_dia bkk bkkmax st rule: bift_loop.induct)
  case (1 B N Bmat alpha sum_dia bkk bkkmax st)
  then show ?case
    by (cases "bift_guard st")
       (simp_all add: bift_loop.simps [of B N Bmat alpha sum_dia bkk bkkmax st])
qed

lemma bift_loop_ite_bound:
  "ite st \<le> maxit \<Longrightarrow> ite (bift_loop B N Bmat alpha sum_dia bkk bkkmax st) \<le> maxit"
proof (induction B N Bmat alpha sum_dia bkk bkkmax st rule: bift_loop.induct)
  case (1 B N Bmat alpha sum_dia bkk bkkmax st)
  show ?case
  proof (cases "bift_guard st")
    case True
    then have "ite st < maxit" by (auto simp: bift_guard_def minit_def maxit_def)
    then have "ite (bift_body B N Bmat alpha sum_dia bkk bkkmax st) \<le> maxit"
      by (simp add: bift_body_ite)
    with True "1.IH" show ?thesis
      by (simp add: bift_loop.simps [of B N Bmat alpha sum_dia bkk bkkmax st])
  next
    case False
    with "1.prems" show ?thesis
      by (simp add: bift_loop.simps [of B N Bmat alpha sum_dia bkk bkkmax st])
  qed
qed

lemma bift_loop_ite_ge:
  "ite st \<le> ite (bift_loop B N Bmat alpha sum_dia bkk bkkmax st)"
proof (induction B N Bmat alpha sum_dia bkk bkkmax st rule: bift_loop.induct)
  case (1 B N Bmat alpha sum_dia bkk bkkmax st)
  show ?case
  proof (cases "bift_guard st")
    case True
    with "1.IH" have "ite (bift_body B N Bmat alpha sum_dia bkk bkkmax st)
        \<le> ite (bift_loop B N Bmat alpha sum_dia bkk bkkmax
                 (bift_body B N Bmat alpha sum_dia bkk bkkmax st))" by simp
    with True show ?thesis
      by (simp add: bift_loop.simps [of B N Bmat alpha sum_dia bkk bkkmax st] bift_body_ite)
  next
    case False
    then show ?thesis by (simp add: bift_loop.simps [of B N Bmat alpha sum_dia bkk bkkmax st])
  qed
qed

lemma bift_loop_funpow:
  "bift_loop B N Bmat alpha sum_dia bkk bkkmax st =
   (bift_body B N Bmat alpha sum_dia bkk bkkmax
      ^^ (ite (bift_loop B N Bmat alpha sum_dia bkk bkkmax st) - ite st)) st"
proof (induction B N Bmat alpha sum_dia bkk bkkmax st rule: bift_loop.induct)
  case (1 B N Bmat alpha sum_dia bkk bkkmax st)
  let ?body = "bift_body B N Bmat alpha sum_dia bkk bkkmax"
  let ?loop = "bift_loop B N Bmat alpha sum_dia bkk bkkmax"
  show ?case
  proof (cases "bift_guard st")
    case True
    then have eq: "?loop st = ?loop (?body st)"
      by (simp add: bift_loop.simps [of B N Bmat alpha sum_dia bkk bkkmax st])
    have ge: "ite (?body st) \<le> ite (?loop (?body st))" by (rule bift_loop_ite_ge)
    have "?loop (?body st) = (?body ^^ (ite (?loop (?body st)) - ite (?body st))) (?body st)"
      using True "1.IH" by simp
    also have "\<dots> = (?body ^^ Suc (ite (?loop (?body st)) - ite (?body st))) st"
      by (simp add: funpow_swap1)
    also have "Suc (ite (?loop (?body st)) - ite (?body st)) = ite (?loop (?body st)) - ite st"
      using ge by (simp add: bift_body_ite)
    finally show ?thesis using eq by simp
  next
    case False
    then show ?thesis by (simp add: bift_loop.simps [of B N Bmat alpha sum_dia bkk bkkmax st])
  qed
qed


lemma bift_loop_guard_before:
  "n < ite (bift_loop B N Bmat alpha sum_dia bkk bkkmax st) - ite st \<Longrightarrow>
   bift_guard ((bift_body B N Bmat alpha sum_dia bkk bkkmax ^^ n) st)"
proof (induction B N Bmat alpha sum_dia bkk bkkmax st arbitrary: n rule: bift_loop.induct)
  case (1 B N Bmat alpha sum_dia bkk bkkmax st)
  let ?body = "bift_body B N Bmat alpha sum_dia bkk bkkmax"
  let ?loop = "bift_loop B N Bmat alpha sum_dia bkk bkkmax"
  show ?case
  proof (cases "bift_guard st")
    case True
    then have eq: "?loop st = ?loop (?body st)"
      by (simp add: bift_loop.simps [of B N Bmat alpha sum_dia bkk bkkmax st])
    show ?thesis
    proof (cases n)
      case 0
      with True show ?thesis by simp
    next
      case (Suc n')
      with "1.prems" eq have "n' < ite (?loop (?body st)) - ite (?body st)"
        by (simp add: bift_body_ite)
      with True "1.IH" have "bift_guard ((?body ^^ n') (?body st))" by simp
      with Suc show ?thesis by (simp add: funpow_swap1)
    qed
  next
    case False
    then have "?loop st = st"
      by (simp add: bift_loop.simps [of B N Bmat alpha sum_dia bkk bkkmax st])
    with "1.prems" show ?thesis by simp
  qed
qed

lemma guard_iff_not_stop: "bift_guard st \<longleftrightarrow> \<not> spec_stop st"
  by (auto simp: bift_guard_def spec_stop_def minit_def maxit_def)

lemma hist_inv_init: "hist_inv (bift_init N m P)"
  by (simp add: hist_inv_def bift_init_def)

lemma hist_inv_bift: "hist_inv (bift B N m P Bmat alpha sum_dia bkk bkkmax)"
  unfolding bift_def by (rule bift_loop_inv) (rule hist_inv_init)

lemma halving_bounds:
  assumes "xs \<noteq> []" "last xs = omega_init"
    "successively (\<lambda>new old. new = old / omegareduction \<and> omegamin < old) xs"
  shows "list_all (\<lambda>w. omegamin / 2 < w \<and> w \<le> omega_init) xs \<and> sorted_wrt (\<le>) xs"
  using assms
proof (induction xs rule: induct_list012)
  case 1
  then show ?case by simp
next
  case (2 x)
  then show ?case by (simp add: omegamin_def omega_init_def)
next
  case (3 x y zs)
  then have ih: "list_all (\<lambda>w. omegamin / 2 < w \<and> w \<le> omega_init) (y # zs)"
    "sorted_wrt (\<le>) (y # zs)" by simp_all
  from "3.prems" have x: "x = y / 2" "omegamin < y" by (simp_all add: omegareduction_def)
  from ih have y: "omegamin / 2 < y" "y \<le> omega_init" by simp_all
  have "x \<le> y" using x y by (simp add: omegamin_def)
  moreover have "\<forall>z\<in>set zs. y \<le> z" using ih(2) by simp
  ultimately have "\<forall>z\<in>set (y # zs). x \<le> z" by auto
  moreover have "omegamin / 2 < x" using x by simp
  moreover have "x \<le> omega_init" using \<open>x \<le> y\<close> y by simp
  ultimately show ?case using ih by simp
qed

lemma reduce_omega_frozen:
  "omega st \<le> omegamin \<Longrightarrow> reduce_omega B N alpha bkkmax sum_dia st = st"
  by (simp add: reduce_omega.simps [of B N alpha bkkmax sum_dia st] reduce_guard_def)

lemma bift_body_frozen:
  assumes "omega st \<le> omegamin"
  shows "omega (bift_body B N Bmat alpha sum_dia bkk bkkmax st) = omega st"
    and "omega_hist (bift_body B N Bmat alpha sum_dia bkk bkkmax st) = omega_hist st"
proof -
  let ?st1 = "if ite st \<noteq> 0 then update_P N Bmat alpha sum_dia bkk st else st"
  let ?st3 = "calc_dotsp B N sum_dia (?st1\<lparr>ite := ite ?st1 + 1\<rparr>)"
  have o: "omega ?st3 = omega st" and h: "omega_hist ?st3 = omega_hist st"
    by (simp_all add: calc_dotsp_keeps update_P_keeps)
  with assms have "reduce_omega B N alpha bkkmax sum_dia ?st3 = ?st3"
    by (intro reduce_omega_frozen) simp
  then show "omega (bift_body B N Bmat alpha sum_dia bkk bkkmax st) = omega st"
    and "omega_hist (bift_body B N Bmat alpha sum_dia bkk bkkmax st) = omega_hist st"
    using o h by (simp_all add: bift_body_def Let_def normalize_dotsp_keeps)
qed

lemma bift_loop_frozen:
  "omega st \<le> omegamin \<Longrightarrow>
   omega (bift_loop B N Bmat alpha sum_dia bkk bkkmax st) = omega st
   \<and> omega_hist (bift_loop B N Bmat alpha sum_dia bkk bkkmax st) = omega_hist st"
proof (induction B N Bmat alpha sum_dia bkk bkkmax st rule: bift_loop.induct)
  case (1 B N Bmat alpha sum_dia bkk bkkmax st)
  then show ?case
    by (cases "bift_guard st")
       (simp_all add: bift_loop.simps [of B N Bmat alpha sum_dia bkk bkkmax st] bift_body_frozen)
qed

lemma bift_loop_unfold_early:
  "ite st < minit \<Longrightarrow>
   bift_loop B N Bmat alpha sum_dia bkk bkkmax st =
   bift_loop B N Bmat alpha sum_dia bkk bkkmax (bift_body B N Bmat alpha sum_dia bkk bkkmax st)"
  by (simp add: bift_loop.simps [of B N Bmat alpha sum_dia bkk bkkmax st] bift_guard_def)

lemma example_factors:
  "seeksol_bift [0] [1, 1] [1] 4 [[1, 1]] =
   bift [[1, 1], [1, 1]] 2 [1, 1] [1, 1] [[0, 1], [1, 0]] 4 [0, 0] [1, 1] 10"
  unfolding seeksol_bift_def seeksol_B_def seeksol_sum_dia_def Let_def
  by (simp add: eye_def maximum_def upt_rec numeral_2_eq_2)

lemma example_first_pass:
  "bift_body [[1, 1], [1, 1]] 2 [[0, 1], [1, 0]] 4 [0, 0] [1, 1] 10 (bift_init 2 [1, 1] [1, 1]) =
   \<lparr>ite = 1, omega = 1 / 2, dotsp = 1, s_val = 0, wgrads = 0, wgradc = 32,
    m_vec = [1, 1], P_vec = [1, 1], Psumi = [0, 0], dP_vec = [0, 0], Pold = [0, 0],
    omega_hist = [1 / 2]\<rparr>"
  by (simp add: bift_init_def bift_body_def calc_dotsp_def reduce_omega.simps reduce_guard_def
      normalize_dotsp_def omega_init_def omegamin_def power2_eq_square upt_rec Let_def)

lemma example_second_pass:
  "omega_hist (bift_body [[1, 1], [1, 1]] 2 [[0, 1], [1, 0]] 4 [0, 0] [1, 1] 10
     \<lparr>ite = 1, omega = 1 / 2, dotsp = 1, s_val = 0, wgrads = 0, wgradc = 32,
      m_vec = [1, 1], P_vec = [1, 1], Psumi = [0, 0], dP_vec = [0, 0], Pold = [0, 0],
      omega_hist = [1 / 2]\<rparr>) =
   [1 / 1024, 1 / 512, 1 / 256, 1 / 128, 1 / 64, 1 / 32, 1 / 16, 1 / 8, 1 / 4, 1 / 2]"
  by (simp add: bift_body_def normalize_dotsp_keeps calc_dotsp_def reduce_omega.simps
      reduce_guard_def reduce_body_def update_P_def smooth_m_def omegamin_def
      omegareduction_def power2_eq_square upt_rec Let_def)

lemma example_history:
  "omega_hist (seeksol_bift [0] [1, 1] [1] 4 [[1, 1]]) =
   [1 / 1024, 1 / 512, 1 / 256, 1 / 128, 1 / 64, 1 / 32, 1 / 16, 1 / 8, 1 / 4, 1 / 2]"
proof -
  let ?body = "bift_body [[1, 1], [1, 1]] 2 [[0, 1], [1, 0]] 4 [0, 0] [1, 1] 10"
  let ?loop = "bift_loop [[1, 1], [1, 1]] 2 [[0, 1], [1, 0]] 4 [0, 0] [1, 1] 10"
  let ?ini = "bift_init 2 [1, 1] [1, 1]"
  have "ite ?ini < minit" by (simp add: bift_init_def minit_def)
  then have a: "?loop ?ini = ?loop (?body ?ini)" by (rule bift_loop_unfold_early)
  have "ite (?body ?ini) < minit" by (simp add: bift_body_ite bift_init_def minit_def)
  then have b: "?loop (?body ?ini) = ?loop (?body (?body ?ini))" by (rule bift_loop_unfold_early)
  have h: "omega_hist (?body (?body ?ini)) =
      [1 / 1024, 1 / 512, 1 / 256, 1 / 128, 1 / 64, 1 / 32, 1 / 16, 1 / 8, 1 / 4, 1 / 2]"
    by (simp only: example_first_pass example_second_pass)
  have "hist_inv (?body (?body ?ini))" by (intro bift_body_inv hist_inv_init)
  then have "omega (?body (?body ?ini)) = hd (omega_hist (?body (?body ?ini)))"
    by (simp add: hist_inv_def)
  then have "omega (?body (?body ?ini)) \<le> omegamin" by (simp add: h omegamin_def)
  then have "omega_hist (?loop (?body (?body ?ini))) = omega_hist (?body (?body ?ini))"
    by (simp add: bift_loop_frozen)
  then show ?thesis by (simp add: example_factors bift_def a b h)
qed

section \<open>Properties of C\_seeksol\<close>

lemma sum_dia_nth:
  "k < N \<Longrightarrow> seeksol_sum_dia T I_exp sigma N ! k =
     (\<Sum>i\<leftarrow>[0..<length T]. T ! i ! k * I_exp ! i / sigma ! i)"
  by (simp add: seeksol_sum_dia_def)

lemma seeksol_B_nth:
  "k < N \<Longrightarrow> j < N \<Longrightarrow> seeksol_B T sigma N ! k ! j =
     (\<Sum>i\<leftarrow>[0..<length T]. T ! i ! k * T ! i ! j / sigma ! i)"
  by (simp add: seeksol_B_def)

lemma seeksol_c_spec:
  assumes "length T = length I_exp"
  shows "seeksol_c I_exp sigma T P = spec_chi2 I_exp sigma T P"
proof -
  have "(I_exp ! i - map (\<lambda>i. \<Sum>k\<leftarrow>[0..<length P]. P ! k * T ! i ! k) [0..<length T] ! i)\<^sup>2
          / (sigma ! i)\<^sup>2 =
        ((I_exp ! i - (\<Sum>k\<leftarrow>[0..<length P]. P ! k * T ! i ! k)) / sigma ! i)\<^sup>2"
    if "i \<in> set [0..<length I_exp]" for i
    using that assms by (simp add: power_divide)
  then have "map (\<lambda>i. (I_exp ! i - map (\<lambda>i. \<Sum>k\<leftarrow>[0..<length P]. P ! k * T ! i ! k)
                                       [0..<length T] ! i)\<^sup>2 / (sigma ! i)\<^sup>2)
               [0..<length I_exp] =
             map (\<lambda>i. ((I_exp ! i - (\<Sum>k\<leftarrow>[0..<length P]. P ! k * T ! i ! k)) / sigma ! i)\<^sup>2)
               [0..<length I_exp]"
    by (intro map_cong refl)
  then show ?thesis
    unfolding seeksol_c_def spec_chi2_def Let_def by (rule arg_cong)
qed

lemma C_seeksol_Inr:
  assumes "C_seeksol I_exp m q sigma alpha dmax T = Inr (P, post, chi)"
  shows "P = P_vec (seeksol_bift I_exp m sigma alpha T)"
    and "chi = seeksol_c I_exp sigma T P / real (length I_exp)"
    and "I_exp \<noteq> []"
  using assms
  by (auto simp: C_seeksol_def Let_def split: if_splits sum.splits)

lemma zero_factors:
  "seeksol_bift [1, - 1] [0, 0] [1, 1] 1 [[1, 1], [1, 1]] =
   bift [[2, 2], [2, 2]] 2 [0, 0] [0, 0] [[0, 2], [2, 0]] 1 [0, 0] [2, 2] 20"
  unfolding seeksol_bift_def seeksol_B_def seeksol_sum_dia_def Let_def
  by (simp add: eye_def maximum_def upt_rec numeral_2_eq_2)

lemma zero_run:
  "bift [[2, 2], [2, 2]] 2 [0, 0] [0, 0] [[0, 2], [2, 0]] 1 [0, 0] [2, 2] 20 =
   \<lparr>ite = 10, omega = 1 / 2, dotsp = 1, s_val = 0, wgrads = 0, wgradc = 0,
    m_vec = [0, 0], P_vec = [0, 0], Psumi = [0, 0], dP_vec = [0, 0], Pold = [0, 0],
    omega_hist = [1 / 2]\<rparr>"
  by (simp add: bift_def bift_init_def bift_loop.simps bift_guard_def bift_body_def calc_dotsp_def
      reduce_omega.simps reduce_guard_def normalize_dotsp_def update_P_def smooth_m_def
      omega_init_def omegamin_def minit_def maxit_def dotsptol_def power2_eq_square upt_rec Let_def)

lemma calcPosterior_Inr:
  assumes "0 < length B" "alpha \<noteq> 0"
  shows "\<exists>post. calcPosterior alpha dmax s Chi B = Inr post"
proof -
  have "0 < max (length B) (ncols B)" using assms by (simp add: less_max_iff_disj)
  then have "calcPosterior_A (max (length B) (ncols B)) = Some (tridiag (max (length B) (ncols B)))"
    by (rule calcPosterior_A_eq)
  then show ?thesis using assms by (simp add: calcPosterior_def Let_def)
qed

lemma zero_example:
  "\<exists>post. C_seeksol [1, - 1] [0, 0] [0, 0] [1, 1] 1 1 [[1, 1], [1, 1]] = Inr ([0, 0], post, 1)"
proof -
  let ?B = "seeksol_B [[1, 1], [1, 1]] [1, 1] (max 1 (length [0, 0 :: real]))"
  have "0 < length ?B" by (simp add: seeksol_B_def)
  then have "\<exists>post. calcPosterior 1 1 0
      (seeksol_c [1, - 1] [1, 1] [[1, 1], [1, 1]] [0, 0]) ?B = Inr post"
    by (rule calcPosterior_Inr) simp
  then obtain post where
    p: "calcPosterior 1 1 0 (seeksol_c [1, - 1] [1, 1] [[1, 1], [1, 1]] [0, 0]) ?B = Inr post"
    by blast
  have c: "seeksol_c [1, - 1] [1, 1] [[1, 1], [1, 1]] [0, 0] = 2"
    by (simp add: seeksol_c_def upt_rec Let_def)
  show ?thesis
    using p by (auto simp add: C_seeksol_def Let_def zero_factors zero_run c)
qed

lemma C_seeksol_post:
  assumes "C_seeksol I_exp m q sigma alpha dmax T = Inr (P, post, chi)"
  shows "calcPosterior alpha dmax (s_val (seeksol_bift I_exp m sigma alpha T))
           (seeksol_c I_exp sigma T P) (seeksol_B T sigma (max 1 (length m))) = Inr post"
  using assms
  by (auto simp: C_seeksol_def Let_def split: if_splits sum.splits)

lemma calcPosterior_shift:
  assumes "calcPosterior alpha dmax s c B = Inr p"
  shows "calcPosterior alpha dmax s c' B = Inr (p + (c - c') / 2)"
  using assms
  apply (auto simp: calcPosterior_def Let_def split: option.splits if_splits)
  apply (simp add: diff_divide_distrib)
  done

section \<open>Properties of the sphere prior\<close>

lemma length_linspace [simp]: "length (linspace start stop num) = num"
  by (simp add: linspace_def)

lemma linspace_nth:
  "num \<noteq> 1 \<Longrightarrow> k < num \<Longrightarrow>
   linspace start stop num ! k = start + real k * ((stop - start) / real (num - 1))"
  by (simp add: linspace_def)

lemma maximum_Max: "xs \<noteq> [] \<Longrightarrow> maximum xs = Max (set xs)"
  by (cases xs) (simp_all add: maximum_def Max.set_eq_fold [symmetric])

lemma sphere_shape: "1 - 15 / 10 * x + 5 / 10 * x ^ 3 = (1 - x)\<^sup>2 * (1 + x / 2)" for x :: real
  by (simp add: power2_eq_square power3_eq_cube algebra_simps)

lemma sphere_shape_nonneg: "0 \<le> x \<Longrightarrow> 0 \<le> 1 - 15 / 10 * x + 5 / 10 * x ^ 3" for x :: real
  unfolding sphere_shape by simp

lemma sphere_shape_pos:
  "0 \<le> x \<Longrightarrow> x < 1 \<Longrightarrow> 0 < 1 - 15 / 10 * x + 5 / 10 * x ^ 3" for x :: real
  unfolding sphere_shape by simp

lemma sphere_raw_props:
  assumes N: "3 \<le> N" and s: "0 < scale_factor" and d: "0 < dmax"
  shows "\<exists>P0. sphere_raw N scale_factor dmax = Inr P0 \<and> length P0 = N
           \<and> (\<forall>p\<in>set P0. 0 \<le> p) \<and> 0 < P0 ! 1"
proof -
  let ?R = "linspace 0 dmax N"
  let ?norm = "scale_factor / (dmax ^ 3 / 24) * ?R ! 1"
  let ?g = "\<lambda>R. R ^ 2 * (1 - 15 / 10 * (R / dmax) + 5 / 10 * (R / dmax) ^ 3) * ?norm"
  have n1: "N \<noteq> 1" and one: "1 < N" using N by simp_all
  have R1: "?R ! 1 = dmax / real (N - 1)"
    using linspace_nth [OF n1 one, of 0 dmax] by simp
  have R1pos: "0 < ?R ! 1" unfolding R1 using d N by simp
  have norm: "0 < ?norm" using s d R1pos by simp
  have raw: "sphere_raw N scale_factor dmax = Inr (map ?g ?R)"
    using N by (simp add: sphere_raw_def Let_def)
  have Rk: "0 \<le> r" if "r \<in> set ?R" for r
  proof -
    from that obtain k where "k < N" "r = ?R ! k" by (auto simp: in_set_conv_nth)
    then show ?thesis using d linspace_nth [OF n1, of k 0 dmax] by simp
  qed
  have nonneg: "0 \<le> ?g r" if "r \<in> set ?R" for r
  proof -
    have "0 \<le> r / dmax" using Rk [OF that] d by simp
    then have a: "0 \<le> 1 - 15 / 10 * (r / dmax) + 5 / 10 * (r / dmax) ^ 3"
      by (rule sphere_shape_nonneg)
    have b: "0 \<le> r ^ 2" by simp
    have c: "0 \<le> ?norm" using norm by (rule less_imp_le)
    show ?thesis by (rule mult_nonneg_nonneg [OF mult_nonneg_nonneg [OF b a] c])
  qed
  have x1: "?R ! 1 / dmax = 1 / real (N - 1)" unfolding R1 using d by simp
  have "1 / real (N - 1) < 1" using N by simp
  then have a1: "0 < 1 - 15 / 10 * (?R ! 1 / dmax) + 5 / 10 * (?R ! 1 / dmax) ^ 3"
    unfolding x1 by (intro sphere_shape_pos) simp_all
  have b1: "0 < (?R ! 1) ^ 2" using R1pos by (rule zero_less_power)
  have "0 < ?g (?R ! 1)" by (rule mult_pos_pos [OF mult_pos_pos [OF b1 a1] norm])
  then have "0 < map ?g ?R ! 1" using one by simp
  with raw nonneg show ?thesis by auto
qed

lemma sphere_floor_max: "sphere_floor avm P = map (\<lambda>p. max p avm) P"
  by (simp add: sphere_floor_def max_def)

lemma sum_list_pos:
  fixes xs :: "real list"
  assumes "xs \<noteq> []" "\<forall>x\<in>set xs. 0 < x"
  shows "0 < sum_list xs"
  using assms by (induction xs) (auto intro: add_pos_nonneg sum_list_nonneg less_imp_le)

lemma sphere_rescale_props:
  fixes P0 :: vec
  assumes nn: "\<forall>p\<in>set P0. 0 \<le> p" and pos: "\<exists>p\<in>set P0. 0 < p"
  shows "length (sphere_rescale P0) = length P0"
    and "sum_list (sphere_rescale P0) = sum_list P0"
    and "\<forall>p\<in>set (sphere_rescale P0). pmin * maximum (sphere_rescale P0) \<le> p \<and> 0 < p"
proof -
  from pos have ne: "P0 \<noteq> []" by auto
  define M0 where "M0 = maximum P0"
  define avm where "avm = pmin * M0"
  define P1 where "P1 = sphere_floor avm P0"
  define S1 where "S1 = sum_list P0"
  define S2 where "S2 = sum_list P1"
  have res: "sphere_rescale P0 = map (\<lambda>p. p * S1 / S2) P1"
    by (simp add: sphere_rescale_def Let_def M0_def avm_def P1_def S1_def S2_def)
  have M0: "M0 = Max (set P0)" unfolding M0_def using ne by (rule maximum_Max)
  from pos obtain p0 where p0: "p0 \<in> set P0" "0 < p0" by auto
  then have "p0 \<le> M0" unfolding M0 by simp
  with p0 have M0pos: "0 < M0" by simp
  then have avm: "0 < avm" "avm < M0" by (simp_all add: avm_def pmin_def)
  have P1: "P1 = map (\<lambda>p. max p avm) P0" unfolding P1_def by (rule sphere_floor_max)
  have P1ne: "P1 \<noteq> []" using ne by (simp add: P1)
  have P1ge: "avm \<le> p" if "p \<in> set P1" for p using that by (auto simp: P1)
  then have P1pos: "\<forall>p\<in>set P1. 0 < p" using avm by force
  have S2pos: "0 < S2" unfolding S2_def using P1ne P1pos by (rule sum_list_pos)
  have "p0 \<le> S1"
    unfolding S1_def using p0 nn by (intro member_le_sum_list) auto
  with p0 have S1pos: "0 < S1" by simp
  have maxP1: "Max (set P1) = M0"
  proof (rule Max_eqI)
    show "finite (set P1)" by simp
    show "y \<le> M0" if "y \<in> set P1" for y
      using that avm unfolding P1 M0 by auto
    have "M0 \<in> set P0" unfolding M0 using ne by (intro Max_in) simp_all
    then have "max M0 avm \<in> set P1" unfolding P1 by force
    then show "M0 \<in> set P1" using avm by (simp add: max_def)
  qed
  define c where "c = S1 / S2"
  have c: "0 < c" unfolding c_def using S1pos S2pos by simp
  have res': "sphere_rescale P0 = map (\<lambda>p. p * c) P1" by (simp add: res c_def)
  show "length (sphere_rescale P0) = length P0" by (simp add: res P1)
  have "sum_list (sphere_rescale P0) = sum_list P1 * c"
    unfolding res' by (simp add: sum_list_mult_const)
  also have "\<dots> = S1" using S2pos by (simp add: c_def S2_def)
  finally show "sum_list (sphere_rescale P0) = sum_list P0" by (simp add: S1_def)
  have "maximum (sphere_rescale P0) = Max (set (sphere_rescale P0))"
    using P1ne by (intro maximum_Max) (simp add: res)
  also have "\<dots> = Max ((\<lambda>p. p * c) ` set P1)" by (simp add: res')
  also have "\<dots> = Max (set P1) * c"
    using P1ne c by (intro mono_Max_commute [symmetric]) (auto simp: mono_def)
  finally have maxres: "maximum (sphere_rescale P0) = M0 * c" by (simp add: maxP1)
  show "\<forall>p\<in>set (sphere_rescale P0). pmin * maximum (sphere_rescale P0) \<le> p \<and> 0 < p"
  proof
    fix p assume "p \<in> set (sphere_rescale P0)"
    then obtain p1 where p1: "p1 \<in> set P1" "p = p1 * c" by (auto simp: res')
    have "avm * c \<le> p1 * c" using P1ge [OF p1(1)] c by simp
    moreover have "0 < p1 * c" using P1pos p1(1) c by simp
    ultimately show "pmin * maximum (sphere_rescale P0) \<le> p \<and> 0 < p"
      by (simp add: maxres p1 avm_def)
  qed
qed

lemma sphere_example:
  "sphere_raw 3 1 2 = Inr [0, 15 / 16, 0]"
  "distDistribution_Sphere 3 1 2 = Inr ([15 / 3232, 375 / 404, 15 / 3232], [0, 1, 2])"
proof -
  show raw: "sphere_raw 3 1 2 = Inr [0, 15 / 16, 0]"
    unfolding sphere_raw_def linspace_def Let_def
    by (simp add: upt_rec numeral_3_eq_3 power2_eq_square power3_eq_cube)
  have "sphere_rescale [0, 15 / 16, 0] = [15 / 3232, 375 / 404, 15 / 3232]"
    unfolding sphere_rescale_def sphere_floor_def Let_def
    by (simp add: maximum_def pmin_def)
  moreover have "linspace 0 2 3 = [0, 1, 2]"
    unfolding linspace_def by (simp add: upt_rec numeral_3_eq_3)
  ultimately show "distDistribution_Sphere 3 1 2 = Inr ([15 / 3232, 375 / 404, 15 / 3232], [0, 1, 2])"
    by (simp add: distDistribution_Sphere_def raw)
qed

text \<open>
  With two points, or with a scale factor that is not positive, no bin of the unfloored
  prior is positive, the floor is 0 and so is \<open>sum2\<close>: the source then divides by
  zero.
\<close>

lemma sphere_two_points:
  "sphere_raw 2 scale_factor 1 = Inr [0, 0]"
  "sum_list (sphere_floor (pmin * maximum [0, 0]) [0, 0]) = 0"
proof -
  show "sphere_raw 2 scale_factor 1 = Inr [0, 0]"
    unfolding sphere_raw_def linspace_def Let_def
    by (simp add: upt_rec numeral_2_eq_2)
  show "sum_list (sphere_floor (pmin * maximum [0, 0]) [0, 0]) = 0"
    by (simp add: sphere_floor_def maximum_def)
qed

lemma sphere_negative_scale:
  "sphere_raw 3 (- 1) 2 = Inr [0, - (15 / 16), 0]"
  "sum_list (sphere_floor (pmin * maximum [0, - (15 / 16), 0]) [0, - (15 / 16), 0]) = 0"
proof -
  show "sphere_raw 3 (- 1) 2 = Inr [0, - (15 / 16), 0]"
    unfolding sphere_raw_def linspace_def Let_def
    by (simp add: upt_rec numeral_3_eq_3 power2_eq_square power3_eq_cube)
  show "sum_list (sphere_floor (pmin * maximum [0, - (15 / 16), 0]) [0, - (15 / 16), 0]) = 0"
    by (simp add: sphere_floor_def maximum_def)
qed

section \<open>Properties of the solve at one point and of the report\<close>

lemma length_sphere_rescale: "length (sphere_rescale P) = length P"
  by (simp add: sphere_rescale_def sphere_floor_def Let_def)

lemma makePrior_Inr:
  assumes "sasm_i Ep \<noteq> []" "2 \<le> N"
  shows "\<exists>P. makePriorDistDistribution Ep N dmax = Inr P \<and> length P = N"
proof -
  from assms(1) obtain x xs where i: "sasm_i Ep = x # xs" by (cases "sasm_i Ep") auto
  have "\<exists>P0. sphere_raw N x dmax = Inr P0 \<and> length P0 = N"
    using assms(2) by (simp add: sphere_raw_def Let_def)
  then obtain P0 where "sphere_raw N x dmax = Inr P0" "length P0 = N" by blast
  then show ?thesis
    by (simp add: makePriorDistDistribution_def i distDistribution_Sphere_def
        length_sphere_rescale)
qed

lemma seeksol_bift_length:
  assumes "1 \<le> length m"
  shows "length (P_vec (seeksol_bift I_exp m sigma alpha T)) = length m"
proof -
  have N: "max 1 (length m) = length m" using assms by simp
  have "length (P_vec (bift_init (length m) m m)) = length m" by (simp add: bift_init_def)
  then show ?thesis
    unfolding seeksol_bift_def Let_def bift_def N by (rule bift_loop_length)
qed

lemma C_seeksol_returns:
  assumes "I_exp \<noteq> []" "\<not> list_ex (\<lambda>x. x = 0) sigma" "alpha \<noteq> 0"
  shows "\<exists>post chi. C_seeksol I_exp m q sigma alpha dmax T
           = Inr (P_vec (seeksol_bift I_exp m sigma alpha T), post, chi)"
proof -
  let ?B = "seeksol_B T sigma (max 1 (length m))"
  let ?st = "seeksol_bift I_exp m sigma alpha T"
  have "0 < length ?B" by (simp add: seeksol_B_def)
  then have "\<exists>post. calcPosterior alpha dmax (s_val ?st)
      (seeksol_c I_exp sigma T (P_vec ?st)) ?B = Inr post"
    using assms(3) by (rule calcPosterior_Inr)
  then obtain post where "calcPosterior alpha dmax (s_val ?st)
      (seeksol_c I_exp sigma T (P_vec ?st)) ?B = Inr post" by blast
  then show ?thesis using assms(1,2) by (simp add: C_seeksol_def Let_def)
qed

lemma solve_at_returns:
  assumes "evidence_defined Ep N" "alpha \<noteq> 0"
  shows "\<exists>P post c. solve_at alpha dmax Ep N
           = Inr ((P, post, c), createTransMatrix (window_q Ep) (linspace 0 dmax N))
         \<and> length P = N"
proof -
  from assms(1) have i: "sasm_i Ep \<noteq> []" and w: "window_i Ep \<noteq> []"
    and e: "\<not> list_ex (\<lambda>x. x = 0) (window_err Ep)" and N: "2 \<le> N"
    by (simp_all add: evidence_defined_def)
  from makePrior_Inr [OF i N] obtain m where
    m: "makePriorDistDistribution Ep N dmax = Inr m" "length m = N" by blast
  let ?T = "createTransMatrix (window_q Ep) (linspace 0 dmax N)"
  from C_seeksol_returns [OF w e assms(2)] obtain post chi where
    c: "C_seeksol (window_i Ep) m (window_q Ep) (window_err Ep) alpha dmax ?T
        = Inr (P_vec (seeksol_bift (window_i Ep) m (window_err Ep) alpha ?T), post, chi)"
    by blast
  have "length (P_vec (seeksol_bift (window_i Ep) m (window_err Ep) alpha ?T)) = N"
    using seeksol_bift_length [of m] m(2) N by simp
  then show ?thesis by (simp add: solve_at_def Let_def m c)
qed

lemma solve_at_Inr:
  assumes "solve_at alpha dmax Ep N = Inr ((P, post, c), T)"
  shows "length P = N \<and> length T = length (window_q Ep)"
proof -
  from assms obtain m where
    m: "makePriorDistDistribution Ep N dmax = Inr m"
    and c: "C_seeksol (window_i Ep) m (window_q Ep) (window_err Ep) alpha dmax T = Inr (P, post, c)"
    and T: "T = createTransMatrix (window_q Ep) (linspace 0 dmax N)"
    by (auto simp: solve_at_def Let_def split: sum.splits)
  from m obtain x xs P0 where "sasm_i Ep = x # xs" "sphere_raw N x dmax = Inr P0"
    "m = sphere_rescale P0"
    by (auto simp: makePriorDistDistribution_def distDistribution_Sphere_def
        split: list.splits sum.splits)
  then have lm: "length m = N" and N: "1 < N"
    by (auto simp: sphere_raw_def Let_def length_sphere_rescale split: if_splits)
  from C_seeksol_Inr(1) [OF c] have "length P = length m"
    using seeksol_bift_length [of m] N lm by simp
  then show ?thesis by (simp add: lm T createTransMatrix_def)
qed

lemma linspace_increasing:
  assumes "0 < dmax" "2 \<le> n"
  shows "sorted_wrt (<) (linspace 0 dmax n)" "hd (linspace 0 dmax n) = 0"
    "last (linspace 0 dmax n) = dmax"
proof -
  have n1: "n \<noteq> 1" using assms(2) by simp
  have step: "0 < dmax / real (n - 1)" using assms by simp
  have nth: "linspace 0 dmax n ! k = real k * (dmax / real (n - 1))" if "k < n" for k
    using that n1 by (simp add: linspace_def)
  show "sorted_wrt (<) (linspace 0 dmax n)"
  proof (simp only: sorted_wrt_iff_nth_less length_linspace, intro allI impI)
    fix i j assume "i < j" "j < n"
    then have "real i < real j" by simp
    then have "real i * (dmax / real (n - 1)) < real j * (dmax / real (n - 1))"
      using step by (rule mult_strict_right_mono)
    then show "linspace 0 dmax n ! i < linspace 0 dmax n ! j"
      using \<open>i < j\<close> \<open>j < n\<close> by (simp only: nth less_trans [OF \<open>i < j\<close> \<open>j < n\<close>])
  qed
  have ne: "linspace 0 dmax n \<noteq> []" using assms(2) by (auto simp: linspace_def)
  have "hd (linspace 0 dmax n) = linspace 0 dmax n ! 0" using ne by (rule hd_conv_nth)
  then show "hd (linspace 0 dmax n) = 0" using nth [of 0] assms(2) by simp
  have "last (linspace 0 dmax n) = linspace 0 dmax n ! (n - 1)"
    using ne by (simp add: last_conv_nth)
  also have "\<dots> = real (n - 1) * (dmax / real (n - 1))" using assms(2) by (intro nth) simp
  also have "\<dots> = dmax" using assms(2) by simp
  finally show "last (linspace 0 dmax n) = dmax" .
qed

lemma make_report_Inr:
  assumes "make_report Pr T dm = Inr rep"
  shows "length (rep_Pr rep) = length Pr + 2" "rep_Pr rep ! 0 = 0"
    "rep_Pr rep ! (length Pr + 1) = 0" "rep_r rep = linspace 0 dm (length Pr + 2)"
    "length (rep_Fit rep) = length T"
  using assms
  by (auto simp: make_report_def Let_def nth_append split: if_splits)

lemma make_report_returns:
  "Pr \<noteq> [] \<Longrightarrow> \<exists>rep. make_report Pr T dm = Inr rep"
  by (cases Pr) (simp_all add: make_report_def Let_def)

lemma report_invariants:
  assumes rep: "make_report Pr T dm = Inr rep" and d: "0 < dm"
    and T: "length T = length (window_q Ep)"
  shows "ift_invariants (length Pr) dm Ep
           (IFTM (rep_Pr rep) (rep_r rep) e (window_i Ep) (window_q Ep) (window_err Ep)
              (rep_Fit rep) info)"
  using make_report_Inr [OF rep] linspace_increasing [OF d, of "length Pr + 2"] T
  by (simp add: ift_invariants_def IFTM_def)

section \<open>Properties of the entry points\<close>

lemma SingleSolve_Inr:
  assumes "SingleSolve alpha dm Ep N = Inr a"
  shows "\<exists>Pr post c T rep info.
           solve_at alpha dm Ep N = Inr ((Pr, post, c), T)
           \<and> make_report Pr T dm = Inr rep
           \<and> a = IFTM (rep_Pr rep) (rep_r rep) (replicate (length (rep_Pr rep)) 1)
                   (window_i Ep) (window_q Ep) (window_err Ep) (rep_Fit rep) info"
  using assms
  by (auto simp: SingleSolve_def Let_def split: sum.splits option.splits)

lemma SingleSolve_returns:
  assumes "evidence_defined Ep N" "alpha \<noteq> 0" "filename Ep \<noteq> None"
  shows "\<exists>a. SingleSolve alpha dm Ep N = Inr a \<and> length (ift_p a) = N + 2"
proof -
  from solve_at_returns [OF assms(1,2)] obtain P post c where
    s: "solve_at alpha dm Ep N
        = Inr ((P, post, c), createTransMatrix (window_q Ep) (linspace 0 dm N))"
    and l: "length P = N" by blast
  from assms(1) have "P \<noteq> []" using l by (auto simp: evidence_defined_def)
  then obtain rep where
    r: "make_report P (createTransMatrix (window_q Ep) (linspace 0 dm N)) dm = Inr rep"
    using make_report_returns by blast
  from assms(3) obtain name where n: "filename Ep = Some name" by auto
  show ?thesis
    using make_report_Inr(1) [OF r] l
    by (simp add: SingleSolve_def Let_def s r n IFTM_def)
qed

lemma doBift_result_Some:
  assumes "doBift_result Ep N aps dps tot st q1 alpha dm = (q, Inr (Some a))"
  shows "\<exists>Pr post c T rep info.
           solve_at alpha dm Ep N = Inr ((Pr, post, c), T)
           \<and> make_report Pr T dm = Inr rep
           \<and> a = IFTM (rep_Pr rep) (rep_r rep) (replicate (length (rep_Pr rep)) 1)
                   (window_i Ep) (window_q Ep) (window_err Ep) (rep_Fit rep) info
           \<and> info_dmax info = dm"
  using assms
  apply (auto simp: doBift_result_def Let_def split: sum.splits option.splits)
  apply (intro exI conjI)
   apply (rule refl)
  apply simp
  done

lemma doBift_result_returns:
  assumes "evidence_defined Ep N" "alpha \<noteq> 0" "filename Ep \<noteq> None"
  shows "\<exists>q a. doBift_result Ep N aps dps tot st q1 alpha dm = (q, Inr (Some a))"
proof -
  from solve_at_returns [OF assms(1,2)] obtain P post c where
    s: "solve_at alpha dm Ep N
        = Inr ((P, post, c), createTransMatrix (window_q Ep) (linspace 0 dm N))"
    and l: "length P = N" by blast
  from assms(1) have "P \<noteq> []" using l by (auto simp: evidence_defined_def)
  then obtain rep where
    r: "make_report P (createTransMatrix (window_q Ep) (linspace 0 dm N)) dm = Inr rep"
    using make_report_returns by blast
  from assms(3) obtain name where n: "filename Ep = Some name" by auto
  show ?thesis
    by (simp add: doBift_result_def Let_def s r n)
qed

lemma doBift_Some:
  assumes "doBift cancel Ep N alphamax alphamin alphaN maxDmax minDmax dmaxN = (q, Inr (Some a))"
  shows "\<exists>aps dps tot st q1 alpha dm.
           doBift_result Ep N aps dps tot st q1 alpha dm = (q, Inr (Some a))"
  using assms
  by (auto simp: doBift_def doBift_finish_def Let_def
      split: prod.splits flow.splits sum.splits option.splits if_splits) blast+

lemma artifact_of_solution:
  assumes s: "solve_at alpha dm Ep N = Inr ((Pr, post, c), T)"
    and r: "make_report Pr T dm = Inr rep" and d: "0 < dm"
  shows "ift_invariants N dm Ep
           (IFTM (rep_Pr rep) (rep_r rep) e (window_i Ep) (window_q Ep) (window_err Ep)
              (rep_Fit rep) info)"
  using report_invariants [OF r d, of Ep e info] solve_at_Inr [OF s] by simp

lemma ift_info_IFTM [simp]: "ift_info (IFTM p r e i q er f info) = info"
  by (simp add: IFTM_def)

lemma one_point_defined: "evidence_defined (one_point 1) 3" "filename (one_point 1) \<noteq> None"
  by (simp_all add: evidence_defined_def one_point_def window_i_def window_err_def getQrange_def
      py_slice_def slice_bound_def)

section \<open>Properties of the solver on floats\<close>

lemma guard_fl_iff: "bift_guard_fl st \<longleftrightarrow> \<not> stop_or_nan st"
  by (cases "fl_dotsp st")
     (auto simp: bift_guard_fl_def stop_or_nan_def fl_lt_def fl_le_def fl_rel_def fl_sub_def
        fl_op_def)

lemma guard_fl_lt_maxit: "bift_guard_fl st \<Longrightarrow> fl_ite st < maxit"
  by (auto simp: bift_guard_fl_def minit_def maxit_def)

lemma fl_div_Inl: "fl_div a b = Inl e \<Longrightarrow> e = ZeroDivisionError"
  by (auto simp: fl_div_def split: if_splits)

lemma collect_Inl: "collect xs = Inl e \<Longrightarrow> Inl e \<in> set xs"
  by (induction xs arbitrary: e) (auto split: sum.splits)

lemma calc_dotsp_fl_ite: "fl_ite (calc_dotsp_fl B N sum_dia t) = fl_ite t"
  by (simp add: calc_dotsp_fl_def Let_def split: prod.splits)

lemma reduce_omega_fl_ite: "fl_ite (reduce_omega_fl B N alpha bkkmax sum_dia t) = fl_ite t"
proof (induction B N alpha bkkmax sum_dia t rule: reduce_omega_fl.induct)
  case (1 B N alpha bkkmax sum_dia t)
  show ?case
  proof (cases "reduce_guard_fl alpha bkkmax t")
    case True
    have "fl_ite (reduce_body_fl B N sum_dia t) = fl_ite t"
      by (simp add: reduce_body_fl_def calc_dotsp_fl_def Let_def split: prod.splits)
    with True "1.IH" show ?thesis
      by (simp add: reduce_omega_fl.simps [of B N alpha bkkmax sum_dia t])
  next
    case False
    then show ?thesis by (simp add: reduce_omega_fl.simps [of B N alpha bkkmax sum_dia t])
  qed
qed

lemma normalize_dotsp_fl_ite: "normalize_dotsp_fl t = Inr u \<Longrightarrow> fl_ite u = fl_ite t"
  by (auto simp: normalize_dotsp_fl_def Let_def split: if_splits sum.splits)

lemma update_P_fl_ite: "update_P_fl N Bmat alpha sum_dia bkk t = Inr u \<Longrightarrow> fl_ite u = fl_ite t"
  by (auto simp: update_P_fl_def Let_def split: sum.splits)

lemma bift_body_fl_ite:
  assumes "bift_body_fl B N Bmat alpha sum_dia bkk bkkmax st = Inr st'"
  shows "fl_ite st' = fl_ite st + 1"
  using assms
  by (auto simp: bift_body_fl_def calc_dotsp_fl_ite reduce_omega_fl_ite
      dest!: normalize_dotsp_fl_ite update_P_fl_ite split: if_splits sum.splits)

lemma update_P_fl_Inl:
  "update_P_fl N Bmat alpha sum_dia bkk t = Inl e \<Longrightarrow> e = ZeroDivisionError"
  by (auto simp: update_P_fl_def Let_def split: sum.splits dest!: collect_Inl
      dest: fl_div_Inl [OF sym])

lemma normalize_dotsp_fl_Inl: "normalize_dotsp_fl t = Inl e \<Longrightarrow> e = ZeroDivisionError"
  by (auto simp: normalize_dotsp_fl_def Let_def split: if_splits sum.splits dest!: fl_div_Inl)

lemma bift_body_fl_Inl:
  assumes "bift_body_fl B N Bmat alpha sum_dia bkk bkkmax st = Inl e"
  shows "e = ZeroDivisionError"
  using assms
  by (auto simp: bift_body_fl_def split: if_splits sum.splits
      dest!: update_P_fl_Inl normalize_dotsp_fl_Inl)

text \<open>
  What a run of the loop from the state \<open>st\<close> is: a number of passes, each begun with
  the guard true, that end in a state with the guard false or in an exception.
\<close>

lemma bift_loop_fl_Inr:
  assumes "bift_loop_fl B N Bmat alpha sum_dia bkk bkkmax st = Inr st'"
  shows "\<exists>n. passes (bift_body_fl B N Bmat alpha sum_dia bkk bkkmax) n st = Inr st'
            \<and> fl_ite st' = fl_ite st + n \<and> \<not> bift_guard_fl st'
            \<and> (\<forall>k<n. \<exists>s. passes (bift_body_fl B N Bmat alpha sum_dia bkk bkkmax) k st = Inr s
                        \<and> bift_guard_fl s)"
  using assms
proof (induction B N Bmat alpha sum_dia bkk bkkmax st rule: bift_loop_fl.induct)
  case (1 B N Bmat alpha sum_dia bkk bkkmax st)
  let ?body = "bift_body_fl B N Bmat alpha sum_dia bkk bkkmax"
  show ?case
  proof (cases "bift_guard_fl st")
    case False
    with "1.prems" have "st' = st"
      by (simp add: bift_loop_fl.simps [of B N Bmat alpha sum_dia bkk bkkmax st])
    with False have "passes ?body 0 st = Inr st' \<and> fl_ite st' = fl_ite st + 0
        \<and> \<not> bift_guard_fl st' \<and> (\<forall>k<0. \<exists>s. passes ?body k st = Inr s \<and> bift_guard_fl s)"
      by simp
    then show ?thesis by blast
  next
    case True
    with "1.prems" obtain st1 where b: "?body st = Inr st1"
      and l: "bift_loop_fl B N Bmat alpha sum_dia bkk bkkmax st1 = Inr st'"
      by (auto simp: bift_loop_fl.simps [of B N Bmat alpha sum_dia bkk bkkmax st]
          split: sum.splits)
    from "1.IH" [OF True b l] obtain n where
      p: "passes ?body n st1 = Inr st'" and i: "fl_ite st' = fl_ite st1 + n"
      and g: "\<not> bift_guard_fl st'"
      and e: "\<forall>k<n. \<exists>s. passes ?body k st1 = Inr s \<and> bift_guard_fl s"
      by blast
    have "passes ?body (Suc n) st = Inr st'" using b p by simp
    moreover have "fl_ite st' = fl_ite st + Suc n"
      using i bift_body_fl_ite [OF b] by simp
    moreover have "\<exists>s. passes ?body k st = Inr s \<and> bift_guard_fl s" if "k < Suc n" for k
    proof (cases k)
      case 0
      then show ?thesis using True by simp
    next
      case (Suc j)
      with that have "j < n" by simp
      with e obtain s where "passes ?body j st1 = Inr s" "bift_guard_fl s" by blast
      then show ?thesis using Suc b by simp
    qed
    ultimately show ?thesis using g by blast
  qed
qed

lemma bift_loop_fl_Inl:
  assumes "bift_loop_fl B N Bmat alpha sum_dia bkk bkkmax st = Inl e"
  shows "\<exists>n s. passes (bift_body_fl B N Bmat alpha sum_dia bkk bkkmax) n st = Inr s
            \<and> fl_ite s = fl_ite st + n \<and> bift_guard_fl s
            \<and> bift_body_fl B N Bmat alpha sum_dia bkk bkkmax s = Inl e"
  using assms
proof (induction B N Bmat alpha sum_dia bkk bkkmax st rule: bift_loop_fl.induct)
  case (1 B N Bmat alpha sum_dia bkk bkkmax st)
  let ?body = "bift_body_fl B N Bmat alpha sum_dia bkk bkkmax"
  from "1.prems" have g: "bift_guard_fl st"
    by (auto simp: bift_loop_fl.simps [of B N Bmat alpha sum_dia bkk bkkmax st]
        split: if_splits)
  show ?case
  proof (cases "?body st")
    case (Inl e')
    with "1.prems" g have "e' = e"
      by (simp add: bift_loop_fl.simps [of B N Bmat alpha sum_dia bkk bkkmax st])
    with Inl g have "passes ?body 0 st = Inr st \<and> fl_ite st = fl_ite st + 0
        \<and> bift_guard_fl st \<and> ?body st = Inl e"
      by simp
    then show ?thesis by blast
  next
    case (Inr st1)
    with "1.prems" g have l: "bift_loop_fl B N Bmat alpha sum_dia bkk bkkmax st1 = Inl e"
      by (simp add: bift_loop_fl.simps [of B N Bmat alpha sum_dia bkk bkkmax st])
    from "1.IH" [OF g Inr l] obtain n s where
      p: "passes ?body n st1 = Inr s" and i: "fl_ite s = fl_ite st1 + n"
      and gs: "bift_guard_fl s" and b: "?body s = Inl e"
      by blast
    have "passes ?body (Suc n) st = Inr s" using Inr p by simp
    moreover have "fl_ite s = fl_ite st + Suc n"
      using i bift_body_fl_ite [OF Inr] by simp
    ultimately show ?thesis using gs b by blast
  qed
qed

text \<open>
  A run on a prior that is not a number: what \<open>C_seeksol\<close> gives \<open>bift\<close> for one
  measured point \<open>I_exp = [1]\<close>, \<open>\<sigma> = [1]\<close>, \<open>T = [[1, 1]]\<close>, \<open>alpha = 1\<close> and the prior
  \<open>[nan, nan]\<close>, which is the sphere prior for \<open>N = 2\<close>.
\<close>

lemma nan_pass:
  "bift_body_fl [[Some 1, Some 1], [Some 1, Some 1]] 2 [[Some 0, Some 1], [Some 1, Some 0]]
     (Some 1) [Some 1, Some 1] [Some 1, Some 1] (Some 10)
     \<lparr>fl_ite = i, fl_omega = 1 / 2, fl_dotsp = d, fl_s = s, fl_wgrads = a, fl_wgradc = b,
      fl_m = [None, None], fl_P = [None, None], fl_Psumi = [Some 0, Some 0],
      fl_dP = dP, fl_Pold = Pq\<rparr>
   = Inr \<lparr>fl_ite = i + 1, fl_omega = 1 / 2, fl_dotsp = None, fl_s = None, fl_wgrads = None,
          fl_wgradc = None, fl_m = [None, None], fl_P = [None, None],
          fl_Psumi = [Some 0, Some 0],
          fl_dP = (if i = 0 then dP else [None, None]),
          fl_Pold = (if i = 0 then Pq else [None, None])\<rparr>"
  by (simp add: bift_body_fl_def update_P_fl_def smooth_m_fl_def calc_dotsp_fl_def
      reduce_omega_fl.simps reduce_guard_fl_def normalize_dotsp_fl_def
      fl_add_def fl_sub_def fl_mul_def fl_div_def fl_op_def fl_lt_def fl_eq_def fl_rel_def
      fl_sqrt_def upt_rec Let_def numeral_2_eq_2)


lemma nan_loop:
  "bift_loop_fl [[Some 1, Some 1], [Some 1, Some 1]] 2 [[Some 0, Some 1], [Some 1, Some 0]]
     (Some 1) [Some 1, Some 1] [Some 1, Some 1] (Some 10)
     \<lparr>fl_ite = i, fl_omega = 1 / 2, fl_dotsp = None, fl_s = None, fl_wgrads = None,
      fl_wgradc = None, fl_m = [None, None], fl_P = [None, None],
      fl_Psumi = [Some 0, Some 0], fl_dP = dP, fl_Pold = Pq\<rparr>
   = Inr \<lparr>fl_ite = max i 10, fl_omega = 1 / 2, fl_dotsp = None, fl_s = None,
          fl_wgrads = None, fl_wgradc = None, fl_m = [None, None], fl_P = [None, None],
          fl_Psumi = [Some 0, Some 0],
          fl_dP = (if i < 10 then [None, None] else dP),
          fl_Pold = (if i < 10 then [None, None] else Pq)\<rparr>"
proof (induction "10 - i" arbitrary: i dP Pq)
  case 0
  then show ?case
    by (simp add: bift_loop_fl.simps bift_guard_fl_def minit_def fl_lt_def fl_rel_def
        fl_sub_def fl_op_def max_def)
next
  case (Suc n)
  let ?S = "\<lambda>i dP Pq. \<lparr>fl_ite = i, fl_omega = 1 / 2, fl_dotsp = None, fl_s = None,
      fl_wgrads = None, fl_wgradc = None, fl_m = [None, None], fl_P = [None, None],
      fl_Psumi = [Some 0, Some 0], fl_dP = dP, fl_Pold = Pq\<rparr>"
  let ?loop = "bift_loop_fl [[Some 1, Some 1], [Some 1, Some 1]] 2
     [[Some 0, Some 1], [Some 1, Some 0]] (Some 1) [Some 1, Some 1] [Some 1, Some 1] (Some 10)"
  let ?dP = "if i = 0 then dP else [None, None]"
  let ?Po = "if i = 0 then Pq else [None, None]"
  from Suc have i: "i < 10" and n: "n = 10 - (i + 1)" by simp_all
  have g: "bift_guard_fl (?S i dP Pq)"
    using i by (simp add: bift_guard_fl_def minit_def)
  have "?loop (?S i dP Pq) = ?loop (?S (i + 1) ?dP ?Po)"
    by (subst bift_loop_fl.simps) (simp only: g if_True nan_pass sum.case)
  also have "\<dots> = Inr (?S (max (i + 1) 10) (if i + 1 < 10 then [None, None] else ?dP)
                             (if i + 1 < 10 then [None, None] else ?Po))"
    by (rule Suc.hyps(1) [OF n])
  also have "\<dots> = Inr (?S (max i 10) (if i < 10 then [None, None] else dP)
                             (if i < 10 then [None, None] else Pq))"
    using i by (auto simp: max_def)
  finally show ?case .
qed

lemma nan_run:
  "bift_fl [[Some 1, Some 1], [Some 1, Some 1]] 2 [None, None] [None, None]
     [[Some 0, Some 1], [Some 1, Some 0]] (Some 1) [Some 1, Some 1] [Some 1, Some 1] (Some 10)
   = Inr \<lparr>fl_ite = 10, fl_omega = 1 / 2, fl_dotsp = None, fl_s = None,
          fl_wgrads = None, fl_wgradc = None, fl_m = [None, None], fl_P = [None, None],
          fl_Psumi = [Some 0, Some 0], fl_dP = [None, None], fl_Pold = [None, None]\<rparr>"
  unfolding bift_fl_def bift_init_fl_def
  apply (subst bift_loop_fl.simps)
  apply (simp add: bift_guard_fl_def minit_def omega_init_def upt_rec nan_pass nan_loop)
  done


text \<open>
  A run on numbers that ends by the tolerance test: the prior \<open>[0, 0]\<close> with
  \<open>I_exp = [1, -1]\<close>, \<open>\<sigma> = [1, 1]\<close>, both rows of \<open>T\<close> equal to \<open>[1, 1]\<close> and
  \<open>alpha = 1\<close>.
\<close>

lemma zero_fl_pass:
  "bift_body_fl [[Some 2, Some 2], [Some 2, Some 2]] 2 [[Some 0, Some 2], [Some 2, Some 0]]
     (Some 1) [Some 0, Some 0] [Some 2, Some 2] (Some 20)
     \<lparr>fl_ite = i, fl_omega = 1 / 2, fl_dotsp = d, fl_s = s, fl_wgrads = a, fl_wgradc = b,
      fl_m = [Some 0, Some 0], fl_P = [Some 0, Some 0], fl_Psumi = [Some 0, Some 0],
      fl_dP = dP, fl_Pold = Pq\<rparr>
   = Inr \<lparr>fl_ite = i + 1, fl_omega = 1 / 2, fl_dotsp = Some 1, fl_s = Some 0,
          fl_wgrads = Some 0, fl_wgradc = Some 0, fl_m = [Some 0, Some 0],
          fl_P = [Some 0, Some 0], fl_Psumi = [Some 0, Some 0],
          fl_dP = (if i = 0 then dP else [Some 0, Some 0]),
          fl_Pold = (if i = 0 then Pq else [Some 0, Some 0])\<rparr>"
  by (simp add: bift_body_fl_def update_P_fl_def smooth_m_fl_def calc_dotsp_fl_def
      reduce_omega_fl.simps reduce_guard_fl_def normalize_dotsp_fl_def
      fl_add_def fl_sub_def fl_mul_def fl_div_def fl_op_def fl_lt_def fl_eq_def fl_rel_def
      fl_sqrt_def upt_rec Let_def numeral_2_eq_2)

lemma zero_fl_loop:
  "bift_loop_fl [[Some 2, Some 2], [Some 2, Some 2]] 2 [[Some 0, Some 2], [Some 2, Some 0]]
     (Some 1) [Some 0, Some 0] [Some 2, Some 2] (Some 20)
     \<lparr>fl_ite = i, fl_omega = 1 / 2, fl_dotsp = Some 1, fl_s = Some 0, fl_wgrads = Some 0,
      fl_wgradc = Some 0, fl_m = [Some 0, Some 0], fl_P = [Some 0, Some 0],
      fl_Psumi = [Some 0, Some 0], fl_dP = dP, fl_Pold = Pq\<rparr>
   = Inr \<lparr>fl_ite = max i 10, fl_omega = 1 / 2, fl_dotsp = Some 1, fl_s = Some 0,
          fl_wgrads = Some 0, fl_wgradc = Some 0, fl_m = [Some 0, Some 0],
          fl_P = [Some 0, Some 0], fl_Psumi = [Some 0, Some 0],
          fl_dP = (if i < 10 then [Some 0, Some 0] else dP),
          fl_Pold = (if i < 10 then [Some 0, Some 0] else Pq)\<rparr>"
proof (induction "10 - i" arbitrary: i dP Pq)
  case 0
  then show ?case
    by (simp add: bift_loop_fl.simps bift_guard_fl_def minit_def fl_lt_def fl_rel_def
        fl_sub_def fl_op_def dotsptol_def max_def)
next
  case (Suc n)
  let ?S = "\<lambda>i dP Pq. \<lparr>fl_ite = i, fl_omega = 1 / 2, fl_dotsp = Some 1, fl_s = Some 0,
      fl_wgrads = Some 0, fl_wgradc = Some 0, fl_m = [Some 0, Some 0],
      fl_P = [Some 0, Some 0], fl_Psumi = [Some 0, Some 0], fl_dP = dP, fl_Pold = Pq\<rparr>"
  let ?loop = "bift_loop_fl [[Some 2, Some 2], [Some 2, Some 2]] 2
     [[Some 0, Some 2], [Some 2, Some 0]] (Some 1) [Some 0, Some 0] [Some 2, Some 2] (Some 20)"
  let ?dP = "if i = 0 then dP else [Some 0, Some 0]"
  let ?Po = "if i = 0 then Pq else [Some 0, Some 0]"
  from Suc have i: "i < 10" and n: "n = 10 - (i + 1)" by simp_all
  have g: "bift_guard_fl (?S i dP Pq)"
    using i by (simp add: bift_guard_fl_def minit_def)
  have "?loop (?S i dP Pq) = ?loop (?S (i + 1) ?dP ?Po)"
    by (subst bift_loop_fl.simps) (simp only: g if_True zero_fl_pass sum.case)
  also have "\<dots> = Inr (?S (max (i + 1) 10) (if i + 1 < 10 then [Some 0, Some 0] else ?dP)
                             (if i + 1 < 10 then [Some 0, Some 0] else ?Po))"
    by (rule Suc.hyps(1) [OF n])
  also have "\<dots> = Inr (?S (max i 10) (if i < 10 then [Some 0, Some 0] else dP)
                             (if i < 10 then [Some 0, Some 0] else Pq))"
    using i by (auto simp: max_def)
  finally show ?case .
qed

lemma zero_fl_run:
  "bift_fl [[Some 2, Some 2], [Some 2, Some 2]] 2 [Some 0, Some 0] [Some 0, Some 0]
     [[Some 0, Some 2], [Some 2, Some 0]] (Some 1) [Some 0, Some 0] [Some 2, Some 2] (Some 20)
   = Inr \<lparr>fl_ite = 10, fl_omega = 1 / 2, fl_dotsp = Some 1, fl_s = Some 0,
          fl_wgrads = Some 0, fl_wgradc = Some 0, fl_m = [Some 0, Some 0],
          fl_P = [Some 0, Some 0], fl_Psumi = [Some 0, Some 0], fl_dP = [Some 0, Some 0],
          fl_Pold = [Some 0, Some 0]\<rparr>"
  unfolding bift_fl_def bift_init_fl_def
  apply (subst bift_loop_fl.simps)
  apply (simp add: bift_guard_fl_def minit_def omega_init_def upt_rec zero_fl_pass zero_fl_loop)
  done

text \<open>
  A run that raises: \<open>\<sigma> = [-1]\<close> with \<open>I_exp = [1]\<close>, \<open>T = [[1, 1]]\<close>, the prior
  \<open>[1, 1]\<close> and \<open>alpha = 1\<close> gives \<open>bkk = [-1, -1]\<close>, and the second pass divides by
  \<open>bkk[0,0] + alpha = 0\<close>.
\<close>

lemma raise_run:
  "bift_fl [[Some (- 1), Some (- 1)], [Some (- 1), Some (- 1)]] 2 [Some 1, Some 1]
     [Some 1, Some 1] [[Some 0, Some (- 1)], [Some (- 1), Some 0]] (Some 1)
     [Some (- 1), Some (- 1)] [Some (- 1), Some (- 1)] (Some (- 10))
   = Inl ZeroDivisionError"
  unfolding bift_fl_def bift_init_fl_def
  apply (subst bift_loop_fl.simps)
  apply (simp add: bift_guard_fl_def minit_def omega_init_def)
  apply (simp add: bift_body_fl_def update_P_fl_def smooth_m_fl_def calc_dotsp_fl_def
      reduce_omega_fl.simps reduce_guard_fl_def normalize_dotsp_fl_def
      fl_add_def fl_sub_def fl_mul_def fl_div_def fl_op_def fl_lt_def fl_eq_def fl_rel_def
      fl_sqrt_def upt_rec Let_def numeral_2_eq_2)
  apply (subst bift_loop_fl.simps)
  apply (simp add: bift_guard_fl_def minit_def)
  apply (simp add: bift_body_fl_def update_P_fl_def smooth_m_fl_def
      fl_add_def fl_sub_def fl_mul_def fl_div_def fl_op_def upt_rec Let_def numeral_2_eq_2)
  done

lemma passes_ite:
  assumes "passes (bift_body_fl B N Bmat alpha sum_dia bkk bkkmax) n st = Inr s"
  shows "fl_ite s = fl_ite st + n"
  using assms
proof (induction n arbitrary: st)
  case 0
  then show ?case by simp
next
  case (Suc n)
  then obtain st1 where b: "bift_body_fl B N Bmat alpha sum_dia bkk bkkmax st = Inr st1"
    and p: "passes (bift_body_fl B N Bmat alpha sum_dia bkk bkkmax) n st1 = Inr s"
    by (auto split: sum.splits)
  from Suc.IH [OF p] bift_body_fl_ite [OF b] show ?case by simp
qed

section \<open>Properties of the grid search\<close>

lemma GetEvidence_returns:
  assumes "evidence_defined Ep N"
  shows "\<exists>post c res. GetEvidence a d Ep N = Inr (post, c, res)"
proof -
  have "exp a \<noteq> 0" by simp
  from solve_at_returns [OF assms this, of d] obtain P post c where
    "solve_at (exp a) d Ep N
       = Inr ((P, post, c), createTransMatrix (window_q Ep) (linspace 0 d N))" by blast
  then show ?thesis by (simp add: GetEvidence_def)
qed

lemma alpha_loop_step:
  assumes "\<not> cancel (current_point st)" "GetEvidence a d Ep N = Inr (post, c, res)"
  shows "\<exists>st4 s. alpha_loop cancel Ep N tot d (a # as) st = alpha_loop cancel Ep N tot d as st4
           \<and> queue st4 = queue st @ [Update s]
           \<and> status_spoint s = current_point st
           \<and> current_point st4 = Suc (current_point st)"
  using assms
  apply (simp add: Let_def split del: if_split)
  apply (intro exI conjI)
     apply (rule refl)
    apply simp
   apply simp
  apply simp
  done

lemma alpha_loop_flow:
  assumes nc: "\<forall>j<k. \<not> cancel j" and ck: "cancel k"
  shows "queue st = map Update ss \<Longrightarrow> map status_spoint ss = [0..<current_point st] \<Longrightarrow>
         current_point st \<le> k \<Longrightarrow>
         \<exists>st' ss'. fst (alpha_loop cancel Ep N tot d as st) = st' \<and>
           (case snd (alpha_loop cancel Ep N tot d as st) of
              Cancelled \<Rightarrow> queue st' = map Update ss' @ [Canceled]
                           \<and> map status_spoint ss' = [0..<k]
            | Raised e \<Rightarrow> queue st' = map Update ss'
                           \<and> map status_spoint ss' = [0..<length ss'] \<and> length ss' < k
            | Next \<Rightarrow> queue st' = map Update ss'
                       \<and> map status_spoint ss' = [0..<current_point st']
                       \<and> current_point st' = current_point st + length as
                       \<and> current_point st' \<le> k)"
proof (induction as arbitrary: st ss)
  case Nil
  then show ?case by auto
next
  case (Cons a as)
  show ?case
  proof (cases "current_point st = k")
    case True
    with ck Cons.prems show ?thesis by auto
  next
    case False
    with Cons.prems have lt: "current_point st < k" by simp
    with nc have n: "\<not> cancel (current_point st)" by simp
    show ?thesis
    proof (cases "GetEvidence a d Ep N")
      case (Inl e)
      have "length ss = current_point st"
        using Cons.prems(2) by (metis length_map length_upt diff_zero)
      with Inl n lt Cons.prems show ?thesis by auto
    next
      case (Inr r)
      obtain post c res where "r = (post, c, res)" by (cases r) auto
      with Inr have "GetEvidence a d Ep N = Inr (post, c, res)" by simp
      from alpha_loop_step [where cancel = cancel and st = st, OF n this] obtain st4 s where
        step: "alpha_loop cancel Ep N tot d (a # as) st = alpha_loop cancel Ep N tot d as st4"
        and q4: "queue st4 = queue st @ [Update s]"
        and sp: "status_spoint s = current_point st"
        and cp: "current_point st4 = Suc (current_point st)" by blast
      have a: "queue st4 = map Update (ss @ [s])" using q4 Cons.prems(1) by simp
      have b: "map status_spoint (ss @ [s]) = [0..<current_point st4]"
        using Cons.prems(2) sp cp by simp
      have c: "current_point st4 \<le> k" using lt cp by simp
      have e: "current_point st + length (a # as) = current_point st4 + length as"
        using cp by simp
      from Cons.IH [OF a b c] show ?thesis unfolding step e by simp
    qed
  qed
qed


lemma dmax_loop_flow:
  assumes nc: "\<forall>j<k. \<not> cancel j" and ck: "cancel k"
  shows "queue st = map Update ss \<Longrightarrow> map status_spoint ss = [0..<current_point st] \<Longrightarrow>
         current_point st \<le> k \<Longrightarrow>
         \<exists>st' ss'. fst (dmax_loop cancel Ep N tot as ds st) = st' \<and>
           (case snd (dmax_loop cancel Ep N tot as ds st) of
              Cancelled \<Rightarrow> queue st' = map Update ss' @ [Canceled]
                           \<and> map status_spoint ss' = [0..<k]
            | Raised e \<Rightarrow> queue st' = map Update ss'
                           \<and> map status_spoint ss' = [0..<length ss'] \<and> length ss' < k
            | Next \<Rightarrow> queue st' = map Update ss'
                       \<and> map status_spoint ss' = [0..<current_point st']
                       \<and> current_point st' = current_point st + length ds * length as
                       \<and> current_point st' \<le> k)"
proof (induction ds arbitrary: st ss)
  case Nil
  then show ?case by auto
next
  case (Cons d ds)
  let ?ini = "st\<lparr>alpha_idx := 0\<rparr>"
  have p: "queue ?ini = map Update ss" "map status_spoint ss = [0..<current_point ?ini]"
    "current_point ?ini \<le> k"
    using Cons.prems by simp_all
  from alpha_loop_flow [OF nc ck p, of Ep N tot d as] obtain st' ss' where
    f: "fst (alpha_loop cancel Ep N tot d as ?ini) = st'"
    and o: "case snd (alpha_loop cancel Ep N tot d as ?ini) of
              Cancelled \<Rightarrow> queue st' = map Update ss' @ [Canceled]
                           \<and> map status_spoint ss' = [0..<k]
            | Raised e \<Rightarrow> queue st' = map Update ss'
                           \<and> map status_spoint ss' = [0..<length ss'] \<and> length ss' < k
            | Next \<Rightarrow> queue st' = map Update ss'
                       \<and> map status_spoint ss' = [0..<current_point st']
                       \<and> current_point st' = current_point ?ini + length as
                       \<and> current_point st' \<le> k"
    by blast
  show ?case
  proof (cases "snd (alpha_loop cancel Ep N tot d as ?ini)")
    case Next
    with f have al: "alpha_loop cancel Ep N tot d as ?ini = (st', Next)"
      by (simp add: prod_eq_iff)
    let ?st1 = "st'\<lparr>dmax_idx := dmax_idx st' + 1\<rparr>"
    from o Next have q: "queue st' = map Update ss'"
      and sp: "map status_spoint ss' = [0..<current_point st']"
      and cp: "current_point st' = current_point st + length as"
      and le: "current_point st' \<le> k" by simp_all
    have p1: "queue ?st1 = map Update ss'" "map status_spoint ss' = [0..<current_point ?st1]"
      "current_point ?st1 \<le> k"
      using q sp le by simp_all
    have e: "current_point ?st1 + length ds * length as
        = current_point st + length (d # ds) * length as"
      using cp by simp
    have d: "dmax_loop cancel Ep N tot as (d # ds) st = dmax_loop cancel Ep N tot as ds ?st1"
      by (simp add: al)
    from Cons.IH [OF p1] show ?thesis unfolding d e .
  next
    case Cancelled
    with f have al: "alpha_loop cancel Ep N tot d as ?ini = (st', Cancelled)"
      by (simp add: prod_eq_iff)
    have d: "dmax_loop cancel Ep N tot as (d # ds) st = (st', Cancelled)"
      by (simp add: al)
    from o Cancelled show ?thesis unfolding d by auto
  next
    case (Raised e)
    with f have al: "alpha_loop cancel Ep N tot d as ?ini = (st', Raised e)"
      by (simp add: prod_eq_iff)
    have d: "dmax_loop cancel Ep N tot as (d # ds) st = (st', Raised e)"
      by (simp add: al)
    from o Raised show ?thesis unfolding d by auto
  qed
qed

lemma grid_flow:
  assumes k: "k < dmaxN * alphaN" and ck: "cancel k" and nc: "\<forall>j<k. \<not> cancel j"
  shows "\<exists>ss. map status_spoint ss = [0..<length ss] \<and>
           (case snd (doBift_grid cancel Ep N alphamax alphamin alphaN maxDmax minDmax dmaxN) of
              Cancelled \<Rightarrow>
                queue (fst (doBift_grid cancel Ep N alphamax alphamin alphaN maxDmax minDmax dmaxN))
                  = map Update ss @ [Canceled] \<and> length ss = k
            | Raised e \<Rightarrow>
                queue (fst (doBift_grid cancel Ep N alphamax alphamin alphaN maxDmax minDmax dmaxN))
                  = map Update ss \<and> length ss < k
            | Next \<Rightarrow> False)"
proof -
  let ?aps = "linspace (ln alphamin) (ln alphamax) alphaN"
  let ?dps = "linspace minDmax maxDmax dmaxN"
  let ?st = "grid_start ?dps ?aps"
  let ?r = "dmax_loop cancel Ep N (length ?dps * length ?aps) ?aps ?dps ?st"
  have g: "doBift_grid cancel Ep N alphamax alphamin alphaN maxDmax minDmax dmaxN = ?r"
    by (simp add: doBift_grid_def Let_def)
  have p: "queue ?st = map Update []" "map status_spoint [] = [0..<current_point ?st]"
    "current_point ?st \<le> k"
    by (simp_all add: grid_start_def)
  have c0: "current_point ?st = 0" by (simp add: grid_start_def)
  from dmax_loop_flow [OF nc ck p, of Ep N "length ?dps * length ?aps" ?aps ?dps]
  obtain st' ss' where
    f: "fst ?r = st'"
    and o: "case snd ?r of
              Cancelled \<Rightarrow> queue st' = map Update ss' @ [Canceled]
                           \<and> map status_spoint ss' = [0..<k]
            | Raised e \<Rightarrow> queue st' = map Update ss'
                           \<and> map status_spoint ss' = [0..<length ss'] \<and> length ss' < k
            | Next \<Rightarrow> queue st' = map Update ss'
                       \<and> map status_spoint ss' = [0..<current_point st']
                       \<and> current_point st' = current_point ?st + length ?dps * length ?aps
                       \<and> current_point st' \<le> k"
    by blast
  show ?thesis
  proof (cases "snd ?r")
    case Next
    with o have "current_point st' = dmaxN * alphaN" "current_point st' \<le> k"
      by (simp_all add: c0)
    with k show ?thesis by simp
  next
    case Cancelled
    with o have q: "queue st' = map Update ss' @ [Canceled]"
      and sp: "map status_spoint ss' = [0..<k]" by simp_all
    from sp have l: "length ss' = k" by (metis length_map length_upt diff_zero)
    with q sp f Cancelled show ?thesis unfolding g by auto
  next
    case (Raised e)
    with o f show ?thesis unfolding g by auto
  qed
qed


lemma alpha_loop_not_raised:
  assumes "evidence_defined Ep N"
  shows "snd (alpha_loop cancel Ep N tot d as st) \<noteq> Raised e"
proof (induction as arbitrary: st)
  case Nil
  show ?case by simp
next
  case (Cons a as)
  show ?case
  proof (cases "cancel (current_point st)")
    case True
    then show ?thesis by simp
  next
    case False
    from GetEvidence_returns [OF assms] obtain post c res where
      "GetEvidence a d Ep N = Inr (post, c, res)" by blast
    from alpha_loop_step [where cancel = cancel and st = st, OF False this] obtain st4 where
      "alpha_loop cancel Ep N tot d (a # as) st = alpha_loop cancel Ep N tot d as st4" by blast
    with Cons.IH [of st4] show ?thesis by simp
  qed
qed

lemma dmax_loop_not_raised:
  assumes "evidence_defined Ep N"
  shows "snd (dmax_loop cancel Ep N tot as ds st) \<noteq> Raised e"
proof (induction ds arbitrary: st)
  case Nil
  show ?case by simp
next
  case (Cons d ds)
  let ?r = "alpha_loop cancel Ep N tot d as (st\<lparr>alpha_idx := 0\<rparr>)"
  obtain s' f where r: "?r = (s', f)" by (cases ?r) auto
  show ?case
  proof (cases f)
    case Next
    with r have "dmax_loop cancel Ep N tot as (d # ds) st
        = dmax_loop cancel Ep N tot as ds (s'\<lparr>dmax_idx := dmax_idx s' + 1\<rparr>)"
      by simp
    with Cons.IH show ?thesis by simp
  next
    case Cancelled
    with r have "dmax_loop cancel Ep N tot as (d # ds) st = (s', Cancelled)" by simp
    then show ?thesis by simp
  next
    case (Raised e')
    with r alpha_loop_not_raised [OF assms, of cancel tot d as "st\<lparr>alpha_idx := 0\<rparr>" e']
    show ?thesis by simp
  qed
qed

lemma grid_not_raised:
  assumes "evidence_defined Ep N"
  shows "snd (doBift_grid cancel Ep N alphamax alphamin alphaN maxDmax minDmax dmaxN) \<noteq> Raised e"
  unfolding doBift_grid_def Let_def by (rule dmax_loop_not_raised [OF assms])

lemma doBift_of_grid:
  "doBift cancel Exp N alphamax alphamin alphaN maxDmax minDmax dmaxN =
     (case snd (doBift_grid cancel Exp N alphamax alphamin alphaN maxDmax minDmax dmaxN) of
        Cancelled \<Rightarrow>
          (queue (fst (doBift_grid cancel Exp N alphamax alphamin alphaN maxDmax minDmax dmaxN)),
           Inr None)
      | Raised e \<Rightarrow>
          (queue (fst (doBift_grid cancel Exp N alphamax alphamin alphaN maxDmax minDmax dmaxN)),
           Inl e)
      | Next \<Rightarrow>
          doBift_finish cancel Exp N (linspace (ln alphamin) (ln alphamax) alphaN)
            (linspace minDmax maxDmax dmaxN)
            (length (linspace minDmax maxDmax dmaxN)
               * length (linspace (ln alphamin) (ln alphamax) alphaN))
            (fst (doBift_grid cancel Exp N alphamax alphamin alphaN maxDmax minDmax dmaxN)))"
  by (simp add: doBift_def Let_def split: prod.splits flow.splits)

lemma alpha_loop_first:
  assumes "\<not> cancel (current_point st)" "GetEvidence a d Ep N = Inr (post, c, res)"
  shows "\<exists>st4 s. alpha_loop cancel Ep N tot d (a # as) st = alpha_loop cancel Ep N tot d as st4
           \<and> queue st4 = queue st @ [Update s]
           \<and> status_spoint s = current_point st
           \<and> status_dmax s = d \<and> status_alpha s = a"
  using assms
  apply (simp add: Let_def split del: if_split)
  apply (intro exI conjI)
      apply (rule refl)
     apply simp
    apply simp
   apply simp
  apply simp
  done

lemma alpha_loop_prefix:
  "\<exists>rest. queue (fst (alpha_loop cancel Ep N tot d as st)) = queue st @ rest"
proof (induction as arbitrary: st)
  case Nil
  show ?case by simp
next
  case (Cons a as)
  show ?case
  proof (cases "cancel (current_point st)")
    case True
    then show ?thesis by simp
  next
    case False
    show ?thesis
    proof (cases "GetEvidence a d Ep N")
      case (Inl e)
      with False show ?thesis by simp
    next
      case (Inr r)
      obtain post c res where "r = (post, c, res)" by (cases r) auto
      with Inr have "GetEvidence a d Ep N = Inr (post, c, res)" by simp
      from alpha_loop_step [where cancel = cancel and st = st, OF False this] obtain st4 s where
        step: "alpha_loop cancel Ep N tot d (a # as) st = alpha_loop cancel Ep N tot d as st4"
        and q4: "queue st4 = queue st @ [Update s]" by blast
      from Cons.IH [of st4] obtain rest where
        "queue (fst (alpha_loop cancel Ep N tot d as st4)) = queue st4 @ rest" by blast
      then show ?thesis unfolding step by (simp add: q4)
    qed
  qed
qed

lemma dmax_loop_prefix:
  "\<exists>rest. queue (fst (dmax_loop cancel Ep N tot as ds st)) = queue st @ rest"
proof (induction ds arbitrary: st)
  case Nil
  show ?case by simp
next
  case (Cons d ds)
  let ?r = "alpha_loop cancel Ep N tot d as (st\<lparr>alpha_idx := 0\<rparr>)"
  obtain s' f where r: "?r = (s', f)" by (cases ?r) auto
  from alpha_loop_prefix [of cancel Ep N tot d as "st\<lparr>alpha_idx := 0\<rparr>"] r
  obtain rest where q: "queue s' = queue st @ rest" by auto
  show ?case
  proof (cases f)
    case Next
    with r have e: "dmax_loop cancel Ep N tot as (d # ds) st
        = dmax_loop cancel Ep N tot as ds (s'\<lparr>dmax_idx := dmax_idx s' + 1\<rparr>)"
      by simp
    from Cons.IH [of "s'\<lparr>dmax_idx := dmax_idx s' + 1\<rparr>"] obtain rest' where
      "queue (fst (dmax_loop cancel Ep N tot as ds (s'\<lparr>dmax_idx := dmax_idx s' + 1\<rparr>)))
         = queue s' @ rest'" by auto
    then show ?thesis unfolding e by (simp add: q)
  next
    case Cancelled
    with r have "dmax_loop cancel Ep N tot as (d # ds) st = (s', Cancelled)" by simp
    then show ?thesis by (simp add: q)
  next
    case (Raised e')
    with r have "dmax_loop cancel Ep N tot as (d # ds) st = (s', Raised e')" by simp
    then show ?thesis by (simp add: q)
  qed
qed

lemma doBift_finish_prefix:
  "\<exists>rest. fst (doBift_finish cancel Ep N aps dps tot st) = queue st @ rest"
  by (auto simp: doBift_finish_def doBift_result_def Let_def
      split: sum.splits option.splits prod.splits)

lemma doBift_prefix:
  "\<exists>rest. fst (doBift cancel Exp N alphamax alphamin alphaN maxDmax minDmax dmaxN)
     = queue (fst (doBift_grid cancel Exp N alphamax alphamin alphaN maxDmax minDmax dmaxN)) @ rest"
proof (cases "snd (doBift_grid cancel Exp N alphamax alphamin alphaN maxDmax minDmax dmaxN)")
  case Next
  then show ?thesis
    using doBift_finish_prefix
    by (simp add: doBift_of_grid)
next
  case Cancelled
  then show ?thesis by (simp add: doBift_of_grid)
next
  case (Raised e)
  then show ?thesis by (simp add: doBift_of_grid)
qed

lemma grid_first_cell:
  assumes ok: "evidence_defined Ep N" and a: "0 < alphaN" and d: "0 < dmaxN"
    and nc: "\<not> cancel 0"
  shows "\<exists>s rest. queue (fst (doBift_grid cancel Ep N alphamax alphamin alphaN maxDmax minDmax dmaxN))
           = Update s # rest
         \<and> status_spoint s = 0 \<and> status_dmax s = minDmax \<and> status_alpha s = ln alphamin"
proof -
  let ?aps = "linspace (ln alphamin) (ln alphamax) alphaN"
  let ?dps = "linspace minDmax maxDmax dmaxN"
  let ?tot = "length ?dps * length ?aps"
  let ?st = "grid_start ?dps ?aps"
  let ?ini = "?st\<lparr>alpha_idx := 0\<rparr>"
  have "?aps \<noteq> []" using a by (auto simp: linspace_def)
  then obtain a0 as where aps: "?aps = a0 # as" by (cases ?aps) auto
  have "?dps \<noteq> []" using d by (auto simp: linspace_def)
  then obtain d0 ds where dps: "?dps = d0 # ds" by (cases ?dps) auto
  have "?aps ! 0 = ln alphamin" using a by (auto simp: linspace_def nth_Cons' upt_conv_Cons)
  with aps have a0: "a0 = ln alphamin" by simp
  have "?dps ! 0 = minDmax" using d by (auto simp: linspace_def nth_Cons' upt_conv_Cons)
  with dps have d0: "d0 = minDmax" by simp
  have n: "\<not> cancel (current_point ?ini)" using nc by (simp add: grid_start_def)
  from GetEvidence_returns [OF ok] obtain post c res where
    "GetEvidence a0 d0 Ep N = Inr (post, c, res)" by blast
  from alpha_loop_first [where cancel = cancel and st = ?ini, OF n this] obtain st4 s where
    step: "alpha_loop cancel Ep N ?tot d0 (a0 # as) ?ini = alpha_loop cancel Ep N ?tot d0 as st4"
    and q4: "queue st4 = queue ?ini @ [Update s]"
    and sp: "status_spoint s = current_point ?ini"
    and sd: "status_dmax s = d0" and sa: "status_alpha s = a0" by blast
  from q4 have q4': "queue st4 = [Update s]" by (simp add: grid_start_def)
  from sp have sp': "status_spoint s = 0" by (simp add: grid_start_def)
  let ?r = "alpha_loop cancel Ep N ?tot d0 as st4"
  obtain s' f where r: "?r = (s', f)" by (cases ?r) auto
  from alpha_loop_prefix [of cancel Ep N ?tot d0 as st4] r q4'
  obtain rest where q: "queue s' = Update s # rest" by auto
  have "\<exists>rest'. queue (fst (dmax_loop cancel Ep N ?tot (a0 # as) (d0 # ds) ?st))
          = Update s # rest'"
  proof (cases f)
    case Next
    with r step have e: "dmax_loop cancel Ep N ?tot (a0 # as) (d0 # ds) ?st
        = dmax_loop cancel Ep N ?tot (a0 # as) ds (s'\<lparr>dmax_idx := dmax_idx s' + 1\<rparr>)"
      by simp
    from dmax_loop_prefix [of cancel Ep N ?tot "a0 # as" ds "s'\<lparr>dmax_idx := dmax_idx s' + 1\<rparr>"]
    obtain rest' where
      "queue (fst (dmax_loop cancel Ep N ?tot (a0 # as) ds (s'\<lparr>dmax_idx := dmax_idx s' + 1\<rparr>)))
         = queue s' @ rest'" by auto
    then show ?thesis unfolding e by (simp add: q)
  next
    case Cancelled
    with r step have "dmax_loop cancel Ep N ?tot (a0 # as) (d0 # ds) ?st = (s', Cancelled)"
      by simp
    then show ?thesis by (simp add: q)
  next
    case (Raised e')
    with r step have "dmax_loop cancel Ep N ?tot (a0 # as) (d0 # ds) ?st = (s', Raised e')"
      by simp
    then show ?thesis by (simp add: q)
  qed
  then obtain rest' where
    "queue (fst (dmax_loop cancel Ep N ?tot ?aps ?dps ?st)) = Update s # rest'"
    unfolding aps dps by blast
  then have "queue (fst (doBift_grid cancel Ep N alphamax alphamin alphaN maxDmax minDmax dmaxN))
      = Update s # rest'"
    by (simp add: doBift_grid_def Let_def)
  with sp' sd sa a0 d0 show ?thesis by blast
qed

section \<open>The claims\<close>

text \<open>
  Claim C1: for every windowed measurement and every matrix \<open>T\<close>, the factors that
  \<open>C_seeksol\<close> computes before the solve are
  \<open>f_k = \<Sum>_i T[i,k] I_exp[i] / \<sigma>[i]\<^sup>2\<close> (the source's \<open>sum_dia\<close>) and
  \<open>B[k,j] = \<Sum>_i T[i,k] T[i,j] / \<sigma>[i]\<^sup>2\<close>, each term divided by the variance.
  The source does not compute these: the array it names \<open>sigma_sq\<close>, with the
  comment "std to variance", is \<open>sigma\<close> itself, so each term is divided by
  \<open>\<sigma>[i]\<close>. For one measured point of intensity 1 with \<open>\<sigma> = 2\<close> and
  \<open>T = [[1, 1]]\<close> the source has \<open>sum_dia = [1/2, 1/2]\<close> and every entry of \<open>B\<close>
  equal to 1/2, where the formulas of the claim give 1/4.
\<close>

theorem sum_dia_divides_by_sigma:
  "seeksol_sum_dia [[1, 1]] [1] [2] 2 = [1 / 2, 1 / 2]
   \<and> spec_f [[1, 1]] [1] [2] 2 = [1 / 4, 1 / 4]
   \<and> seeksol_B [[1, 1]] [2] 2 = [[1 / 2, 1 / 2], [1 / 2, 1 / 2]]
   \<and> spec_B [[1, 1]] [2] 2 = [[1 / 4, 1 / 4], [1 / 4, 1 / 4]]"
  by (simp add: seeksol_sum_dia_def spec_f_def seeksol_B_def spec_B_def upt_rec numeral_2_eq_2)

text \<open>
  Claim C2, as stated: the third value that \<open>C_seeksol\<close> returns, reported as
  \<open>chi\<close> and \<open>ChiSquared\<close>, is the full sum
  \<open>\<Sum>_i ((I_exp[i] - I_model[i]) / \<sigma>[i])\<^sup>2\<close> over the windowed points. On two
  measured points \<open>I_exp = [1, -1]\<close> with \<open>\<sigma> = [1, 1]\<close>, both rows of \<open>T\<close>
  equal to \<open>[1, 1]\<close>, the prior \<open>[0, 0]\<close> and \<open>alpha = 1\<close> the solution stays
  \<open>[0, 0]\<close>, the model intensity is 0 at both points and the sum is 2; the value
  returned is 1.
\<close>

theorem chi_is_divided_by_size:
  "map_sum id (\<lambda>(P, post, chi). (P, chi))
     (C_seeksol [1, - 1] [0, 0] [0, 0] [1, 1] 1 1 [[1, 1], [1, 1]]) = Inr ([0, 0], 1)
   \<and> spec_chi2 [1, - 1] [1, 1] [[1, 1], [1, 1]] [0, 0] = 2"
proof -
  obtain post where
    "C_seeksol [1, - 1] [0, 0] [0, 0] [1, 1] 1 1 [[1, 1], [1, 1]] = Inr ([0, 0], post, 1)"
    using zero_example by blast
  moreover have "spec_chi2 [1, - 1] [1, 1] [[1, 1], [1, 1]] [0, 0] = 2"
    by (simp add: spec_chi2_def upt_rec)
  ultimately show ?thesis by simp
qed

text \<open>
  Claim C2, amended: whenever \<open>C_seeksol\<close> returns, on a window of \<open>M > 0\<close> points
  with one row of \<open>T\<close> for each, its third value is the sum
  \<open>c = \<Sum>_i ((I_exp[i] - I_model[i]) / \<sigma>[i])\<^sup>2\<close> with \<open>I_model = P T\<^sup>T\<close>
  divided by \<open>M\<close>, the number of windowed points (\<open>c / I_exp.size\<close>), and its second
  value is the evidence that \<open>calcPosterior\<close> computes from the undivided sum \<open>c\<close>.
  In the example the evidence is taken at \<open>c = 2\<close>; at the returned value 1 it would
  be larger by one half.
\<close>

theorem chi_is_mean_of_squares:
  assumes "C_seeksol I_exp m q sigma alpha dmax T = Inr (P, post, chi)"
    and "length T = length I_exp"
  shows "chi = spec_chi2 I_exp sigma T P / real (length I_exp) \<and> 0 < length I_exp
    \<and> calcPosterior alpha dmax (s_val (seeksol_bift I_exp m sigma alpha T))
          (spec_chi2 I_exp sigma T P) (seeksol_B T sigma (max 1 (length m))) = Inr post"
  using C_seeksol_Inr [OF assms(1)] C_seeksol_post [OF assms(1)] seeksol_c_spec [OF assms(2)]
  by simp

theorem chi_is_mean_of_squares_witness:
  "\<exists>post. C_seeksol [1, - 1] [0, 0] [0, 0] [1, 1] 1 1 [[1, 1], [1, 1]] = Inr ([0, 0], post, 1)
     \<and> length [[1, 1], [1, 1 :: real]] = length [1, - 1 :: real]
     \<and> (1 :: real) = spec_chi2 [1, - 1] [1, 1] [[1, 1], [1, 1]] [0, 0] / real (length [1, - 1 :: real])
     \<and> spec_chi2 [1, - 1] [1, 1] [[1, 1], [1, 1]] [0, 0] = 2
     \<and> calcPosterior 1 1 0 2 [[2, 2], [2, 2]] = Inr post
     \<and> calcPosterior 1 1 0 1 [[2, 2], [2, 2]] = Inr (post + 1 / 2)"
proof -
  obtain post where
    h: "C_seeksol [1, - 1] [0, 0] [0, 0] [1, 1] 1 1 [[1, 1], [1, 1]] = Inr ([0, 0], post, 1)"
    using zero_example by blast
  have l: "length [[1, 1], [1, 1 :: real]] = length [1, - 1 :: real]" by simp
  have c: "spec_chi2 [1, - 1] [1, 1] [[1, 1], [1, 1]] [0, 0] = 2"
    by (simp add: spec_chi2_def upt_rec)
  have B: "seeksol_B [[1, 1], [1, 1]] [1, 1] (max 1 (length [0, 0 :: real])) = [[2, 2], [2, 2]]"
    by (simp add: seeksol_B_def upt_rec numeral_2_eq_2)
  have s: "s_val (seeksol_bift [1, - 1] [0, 0] [1, 1] 1 [[1, 1], [1, 1]]) = 0"
    by (simp add: zero_factors zero_run)
  from chi_is_mean_of_squares [OF h l]
  have p: "calcPosterior 1 1 0 2 [[2, 2], [2, 2]] = Inr post"
    by (simp only: c B s)
  from calcPosterior_shift [OF p, of 1]
  have "calcPosterior 1 1 0 1 [[2, 2], [2, 2]] = Inr (post + 1 / 2)"
    by simp
  with h l c p show ?thesis by simp
qed

text \<open>
  Claim C3, as stated: for every \<open>N \<ge> 2\<close> the matrix \<open>A\<close> of the evidence has 1 on
  the diagonal, -0.5 next to it for \<open>1 \<le> k \<le> N - 2\<close> only, and 0 in the corner
  entries \<open>A[0,1]\<close> and \<open>A[N-1,N-2]\<close>. For \<open>N = 2\<close> the source builds the matrix
  with rows \<open>[1, -0.5]\<close> and \<open>[-0.5, 1]\<close>: the two entries the claim puts to 0 are
  -0.5. The entries the source sets to zero are \<open>mat2[0,0]\<close> and
  \<open>mat1[N-1,N-1]\<close>, where the circular shifts wrapped the last 1 of the identity
  around; they lie on the diagonal of the shifted matrices.
\<close>

theorem A_corner_entries_not_zero:
  "calcPosterior_A 2 = Some [[1, - (1 / 2)], [- (1 / 2), 1]]
   \<and> map_option (\<lambda>A. A ! 0 ! 1) (calcPosterior_A 2) = Some (- (1 / 2))
   \<and> map_option (\<lambda>A. A ! 1 ! 0) (calcPosterior_A 2) = Some (- (1 / 2))"
proof -
  have "calcPosterior_A 2 = Some (tridiag 2)"
    by (rule calcPosterior_A_eq) simp
  moreover have "tridiag 2 = [[1, - (1 / 2)], [- (1 / 2), 1]]"
    by (simp add: tridiag_def upt_rec numeral_2_eq_2)
  ultimately show ?thesis by simp
qed

text \<open>
  Claim C3, amended: for every \<open>N \<ge> 2\<close> the matrix \<open>A\<close> that \<open>calcPosterior\<close>
  builds is the full tri-diagonal matrix, with \<open>A[k,k] = 1\<close> and
  \<open>A[k,k+1] = A[k+1,k] = -0.5\<close> for all \<open>0 \<le> k \<le> N - 2\<close>, the corner entries
  \<open>A[0,1]\<close> and \<open>A[N-1,N-2]\<close> included, and 0 elsewhere.
\<close>

theorem A_is_tridiagonal:
  assumes "2 \<le> N"
  shows "calcPosterior_A N = Some (tridiag N)"
  using assms by (intro calcPosterior_A_eq) simp

theorem A_is_tridiagonal_witness:
  "(2::nat) \<le> 3
   \<and> calcPosterior_A 3 = Some [[1, - (1 / 2), 0], [- (1 / 2), 1, - (1 / 2)], [0, - (1 / 2), 1]]"
proof -
  have h: "(2::nat) \<le> 3" by simp
  have "tridiag 3 = [[1, - (1 / 2), 0], [- (1 / 2), 1, - (1 / 2)], [0, - (1 / 2), 1]]"
    by (simp add: tridiag_def upt_rec numeral_3_eq_3)
  with A_is_tridiagonal [OF h] h show ?thesis by simp
qed

text \<open>
  Claim C4, as stated: for every \<open>N \<ge> 2\<close>, scale factor and \<open>D_max > 0\<close> the
  sphere prior returned after the floor and the rescaling has every bin at least
  \<open>avm = 0.005 max(P)\<close>, the sum \<open>S1\<close> it had before the floor, and no negative
  bin. For \<open>N = 3\<close>, scale factor 1 and \<open>D_max = 2\<close> the unfloored prior is
  \<open>[0, 15/16, 0]\<close> and \<open>avm = 3/640\<close>; the floor raises the two outer bins to
  \<open>avm\<close>, and the rescaling by \<open>S1 / S2 < 1\<close> that restores the sum takes them
  to \<open>15/3232\<close>, below \<open>avm\<close>.
\<close>

theorem sphere_floor_bin_below_avm:
  "distDistribution_Sphere 3 1 2 = Inr ([15 / 3232, 375 / 404, 15 / 3232], [0, 1, 2])
   \<and> sphere_raw 3 1 2 = Inr [0, 15 / 16, 0]
   \<and> pmin * maximum [0, 15 / 16, 0] = 3 / 640
   \<and> [15 / 3232, 375 / 404, 15 / 3232] ! 0 < (3 / 640 :: real)"
  by (simp add: sphere_example maximum_def pmin_def)

text \<open>
  Claim C4, amended: for every \<open>N \<ge> 3\<close>, scale factor above 0 and \<open>D_max > 0\<close>
  the sphere prior returned by \<open>distDistribution_Sphere\<close> has \<open>N\<close> bins, every bin
  at least 0.005 times the largest bin of the returned prior (which is
  \<open>avm S1 / S2\<close>, with \<open>avm\<close> the floor computed from the unfloored prior), its sum
  is the sum \<open>S1\<close> of the unfloored prior, and no bin is negative.
\<close>

theorem sphere_prior_floor:
  assumes "3 \<le> N" and "0 < scale_factor" and "0 < dmax"
  shows "\<exists>P R P0. distDistribution_Sphere N scale_factor dmax = Inr (P, R)
           \<and> sphere_raw N scale_factor dmax = Inr P0
           \<and> length P = N
           \<and> list_all (\<lambda>p. pmin * maximum P \<le> p \<and> 0 \<le> p) P
           \<and> sum_list P = sum_list P0"
proof -
  from sphere_raw_props [OF assms] obtain P0 where
    raw: "sphere_raw N scale_factor dmax = Inr P0" and len: "length P0 = N"
    and nn: "\<forall>p\<in>set P0. 0 \<le> p" and p1: "0 < P0 ! 1" by blast
  have "P0 ! 1 \<in> set P0" using len assms(1) by (intro nth_mem) simp
  with p1 have pos: "\<exists>p\<in>set P0. 0 < p" by blast
  note r = sphere_rescale_props [OF nn pos]
  have "list_all (\<lambda>p. pmin * maximum (sphere_rescale P0) \<le> p \<and> 0 \<le> p) (sphere_rescale P0)"
    using r(3) by (auto simp: list_all_iff intro: less_imp_le)
  moreover have "distDistribution_Sphere N scale_factor dmax
      = Inr (sphere_rescale P0, linspace 0 dmax N)"
    by (simp add: distDistribution_Sphere_def raw)
  ultimately show ?thesis using raw r(1) r(2) len by auto
qed

theorem sphere_prior_floor_witness:
  "(3 :: nat) \<le> 3 \<and> (0 :: real) < 1 \<and> (0 :: real) < 2
   \<and> distDistribution_Sphere 3 1 2 = Inr ([15 / 3232, 375 / 404, 15 / 3232], [0, 1, 2])
   \<and> sphere_raw 3 1 2 = Inr [0, 15 / 16, 0]
   \<and> list_all (\<lambda>p. pmin * maximum [15 / 3232, 375 / 404, 15 / 3232] \<le> p \<and> 0 \<le> p)
        [15 / 3232, 375 / 404, 15 / 3232]
   \<and> sum_list [15 / 3232, 375 / 404, 15 / 3232] = sum_list [0, 15 / 16, 0 :: real]"
proof -
  have h1: "(3 :: nat) \<le> 3" and h2: "(0 :: real) < 1" and h3: "(0 :: real) < 2" by simp_all
  from sphere_prior_floor [OF h1 h2 h3] obtain P R P0 where
    "distDistribution_Sphere 3 1 2 = Inr (P, R)" "sphere_raw 3 1 2 = Inr P0"
    "list_all (\<lambda>p. pmin * maximum P \<le> p \<and> 0 \<le> p) P" "sum_list P = sum_list P0"
    by blast
  then show ?thesis by (simp add: sphere_example)
qed

text \<open>
  Claim C5, as stated: a call of \<open>SingleSolve\<close> or \<open>doBift\<close> with \<open>N < 4\<close> is rejected
  by a precondition failure instead of proceeding into the numerical core. Neither
  function tests its arguments. \<open>SingleSolve\<close> called with \<open>alpha = 1\<close>, \<open>D_max = 2\<close>
  and \<open>N = 3\<close> on a measurement of one point with intensity 1 and error 1 returns a
  result, whose \<open>p\<close> has the five points \<open>N + 2\<close>.
\<close>

theorem SingleSolve_accepts_three_points:
  "(case SingleSolve 1 2 (one_point 1) 3 of Inl e \<Rightarrow> False | Inr a \<Rightarrow> length (ift_p a) = 5)"
proof -
  from SingleSolve_returns [OF one_point_defined(1) _ one_point_defined(2), of 1 2]
  obtain a where "SingleSolve 1 2 (one_point 1) 3 = Inr a" "length (ift_p a) = 3 + 2"
    by auto
  then show ?thesis by simp
qed

text \<open>
  Claim C5, amended: the entry points do not validate \<open>N\<close> or \<open>D_max\<close>. On a
  measurement with a first intensity and a window that is not empty and has positive
  errors, for every \<open>N \<ge> 2\<close>, so also for \<open>N = 2\<close> and \<open>N = 3\<close>, and for every
  \<open>D_max\<close>, so also for \<open>D_max \<le> 0\<close>: \<open>SingleSolve\<close> with \<open>alpha > 0\<close> and a file
  name returns a result with \<open>N + 2\<close> points; and \<open>doBift\<close> with positive bounds for
  \<open>alpha\<close>, a grid that is not empty and the flag not set at its first read
  evaluates the first cell, at \<open>D_max = minDmax\<close> and \<open>log alpha = log alphamin\<close>, so
  that the first record on the queue is the update record of cell 0. The example has
  \<open>N = 3\<close>, \<open>D_max = -1\<close> for \<open>SingleSolve\<close> and \<open>minDmax = -10\<close> for \<open>doBift\<close>.
\<close>

theorem entry_points_do_not_validate:
  assumes "search_input_valid Ep N alphamin alphamax" and "0 < alpha"
    and "filename Ep \<noteq> None" and "0 < alphaN" and "0 < dmaxN" and "\<not> cancel 0"
  shows "(\<exists>a. SingleSolve alpha dmax Ep N = Inr a \<and> length (ift_p a) = N + 2)
    \<and> (\<exists>s rest. fst (doBift cancel Ep N alphamax alphamin alphaN maxDmax minDmax dmaxN)
                   = Update s # rest
                 \<and> status_spoint s = 0 \<and> status_dmax s = minDmax
                 \<and> status_alpha s = ln alphamin)"
proof -
  from assms(1) have ok: "evidence_defined Ep N" by (simp add: search_input_valid_def)
  from assms(2) have "alpha \<noteq> 0" by simp
  from SingleSolve_returns [OF ok this assms(3)]
  have a: "\<exists>a. SingleSolve alpha dmax Ep N = Inr a \<and> length (ift_p a) = N + 2" .
  from grid_first_cell [where cancel = cancel, OF ok assms(4,5,6)] obtain s rest where
    g: "queue (fst (doBift_grid cancel Ep N alphamax alphamin alphaN maxDmax minDmax dmaxN))
          = Update s # rest"
    and s: "status_spoint s = 0" "status_dmax s = minDmax" "status_alpha s = ln alphamin"
    by blast
  from doBift_prefix [of cancel Ep N alphamax alphamin alphaN maxDmax minDmax dmaxN] g
  obtain rest' where
    "fst (doBift cancel Ep N alphamax alphamin alphaN maxDmax minDmax dmaxN)
       = Update s # rest'" by auto
  with s a show ?thesis by blast
qed

theorem entry_points_do_not_validate_witness:
  "search_input_valid (one_point 1) 3 1 100 \<and> (0 :: real) < 1
   \<and> filename (one_point 1) \<noteq> None \<and> (0 :: nat) < 2
   \<and> (\<exists>a. SingleSolve 1 (- 1) (one_point 1) 3 = Inr a \<and> length (ift_p a) = 5)
   \<and> (\<exists>s rest. fst (doBift (\<lambda>n. False) (one_point 1) 3 100 1 2 20 (- 10) 2) = Update s # rest
                \<and> status_spoint s = 0 \<and> status_dmax s = - 10 \<and> status_alpha s = 0)"
proof -
  have v: "search_input_valid (one_point 1) 3 1 100"
    using one_point_defined(1)
    by (simp add: search_input_valid_def one_point_def window_err_def getQrange_def
        py_slice_def slice_bound_def)
  have p: "(0 :: real) < 1" and n: "(0 :: nat) < 2" by simp_all
  from entry_points_do_not_validate [where cancel = "\<lambda>n. False" and Ep = "one_point 1"
      and N = 3 and alphamin = 1 and alphamax = 100 and alpha = 1 and alphaN = 2
      and dmaxN = 2 and dmax = "- 1" and maxDmax = 20 and minDmax = "- 10",
      OF v p one_point_defined(2) n n]
    v one_point_defined(2)
  show ?thesis by simp
qed

text \<open>
  Claim C6, as stated: throughout every run of the inner solver \<open>omega\<close> never grows
  and stays in the interval from \<open>omegamin = 0.001\<close> (excluded) to 1 (included),
  starting at 0.5. The run on one measured point \<open>I_exp = [0]\<close> with
  \<open>sigma = [1]\<close>, \<open>T = [[1, 1]]\<close>, prior \<open>[1, 1]\<close> and \<open>alpha = 4\<close> refutes
  the interval: in the second pass the product of the two gradients is negative
  however short the step, the reduction loop halves \<open>omega\<close> nine times, and the
  ninth division, allowed because \<open>1/512\<close> is above \<open>omegamin\<close>, leaves
  \<open>omega = 1/1024\<close> below it, where it stays to the end of the run.
\<close>

theorem omega_leaves_interval:
  "omega_hist (seeksol_bift [0] [1, 1] [1] 4 [[1, 1]]) =
     [1 / 1024, 1 / 512, 1 / 256, 1 / 128, 1 / 64, 1 / 32, 1 / 16, 1 / 8, 1 / 4, 1 / 2]
   \<and> omega (seeksol_bift [0] [1, 1] [1] 4 [[1, 1]]) = 1 / 1024
   \<and> \<not> omegamin < omega (seeksol_bift [0] [1, 1] [1] 4 [[1, 1]])"
proof -
  let ?st = "seeksol_bift [0] [1, 1] [1] 4 [[1, 1]]"
  have "hist_inv ?st"
    unfolding seeksol_bift_def Let_def by (rule hist_inv_bift)
  then have "omega ?st = hd (omega_hist ?st)" by (simp add: hist_inv_def)
  then have "omega ?st = 1 / 1024" by (simp add: example_history)
  then show ?thesis by (simp add: example_history omegamin_def)
qed

text \<open>
  Claim C6, amended: throughout every run of the inner solver \<open>omega\<close> never grows,
  starts at 0.5 and stays in the interval from \<open>omegamin / 2 = 0.0005\<close> (excluded)
  to 1 (included). The history lists the values \<open>omega\<close> has held, the latest first,
  so its reverse is in the order of time.
\<close>

theorem omega_non_increasing:
  "sorted_wrt (\<ge>) (rev (omega_hist (bift B N m P Bmat alpha sum_dia bkk bkkmax)))
   \<and> list_all (\<lambda>w. omegamin / 2 < w \<and> w \<le> 1)
       (omega_hist (bift B N m P Bmat alpha sum_dia bkk bkkmax))
   \<and> hd (omega_hist (bift B N m P Bmat alpha sum_dia bkk bkkmax))
       = omega (bift B N m P Bmat alpha sum_dia bkk bkkmax)
   \<and> last (omega_hist (bift B N m P Bmat alpha sum_dia bkk bkkmax)) = 5 / 10
   \<and> omegamin = 1 / 1000"
proof -
  let ?st = "bift B N m P Bmat alpha sum_dia bkk bkkmax"
  have inv: "hist_inv ?st" by (rule hist_inv_bift)
  then have ne: "omega_hist ?st \<noteq> []" and hd: "hd (omega_hist ?st) = omega ?st"
    and la: "last (omega_hist ?st) = omega_init"
    and su: "successively (\<lambda>new old. new = old / omegareduction \<and> omegamin < old) (omega_hist ?st)"
    by (simp_all add: hist_inv_def)
  from halving_bounds [OF ne la su]
  have b: "list_all (\<lambda>w. omegamin / 2 < w \<and> w \<le> omega_init) (omega_hist ?st)"
    and so: "sorted_wrt (\<le>) (omega_hist ?st)" by simp_all
  from b have "list_all (\<lambda>w. omegamin / 2 < w \<and> w \<le> 1) (omega_hist ?st)"
    by (auto simp: list_all_iff omega_init_def)
  moreover have "sorted_wrt (\<ge>) (rev (omega_hist ?st))"
    using so by (simp add: sorted_wrt_rev)
  ultimately show ?thesis using hd la by (simp add: omega_init_def omegamin_def)
qed

text \<open>
  Claim C7, as stated: for every input the outer loop of the inner solver stops exactly
  when "\<open>ite \<ge> minit\<close> and (\<open>ite \<ge> maxit\<close> or \<open>omega \<le> omega_min\<close> or
  \<open>|1 - dotsp| \<le> dotsptol\<close>)" holds. The guard of the source is
  \<open>(ite < maxit and omega > omegamin and abs(1-dotsp) > dotsptol) or ite < minit\<close>,
  and a \<open>dotsp\<close> that is not a number makes \<open>abs(1-dotsp) > dotsptol\<close> false as
  well as \<open>|1 - dotsp| \<le> dotsptol\<close>. On the prior \<open>[nan, nan]\<close> (the sphere prior for
  two points, whose last step divides 0 by 0) with one measured point \<open>I_exp = [1]\<close>,
  \<open>\<sigma> = [1]\<close>, \<open>T = [[1, 1]]\<close> and \<open>alpha = 1\<close> the loop is left after ten passes
  with \<open>ite = 10\<close>, \<open>omega = 1/2\<close> and \<open>dotsp = nan\<close>: it has stopped in a state in
  which the condition of the claim is false.
\<close>

theorem nan_dotsp_stops_loop:
  "map_sum id (\<lambda>st. (fl_ite st, fl_omega st, fl_dotsp st, spec_stop_fl st))
     (bift_fl [[Some 1, Some 1], [Some 1, Some 1]] 2 [None, None] [None, None]
        [[Some 0, Some 1], [Some 1, Some 0]] (Some 1) [Some 1, Some 1] [Some 1, Some 1]
        (Some 10))
   = Inr (10, 1 / 2, None, False)"
  by (simp add: nan_run spec_stop_fl_def minit_def maxit_def omegamin_def fl_le_def fl_rel_def
      fl_sub_def fl_op_def)

text \<open>
  Claim C7, amended: the outer loop goes on exactly as long as the condition
  "\<open>ite \<ge> minit\<close> and (\<open>ite \<ge> maxit\<close> or \<open>omega \<le> omega_min\<close> or
  \<open>|1 - dotsp| \<le> dotsptol\<close> or \<open>dotsp\<close> is not a number)" is false; this is the
  condition of the claim with one more way to stop. Every run ends within
  \<open>maxit = 1000\<close> passes, in one of two ways. Either \<open>bift\<close> returns: then the final
  state satisfies the condition, it is reached from the initial state by as many
  passes as its counter \<open>ite\<close> says, the condition fails before each of these passes,
  and the counter is at most \<open>maxit\<close>. Or \<open>bift\<close> raises: then the exception is
  ZeroDivisionError, raised by a pass that began, after fewer than \<open>maxit\<close> passes,
  in a state in which the condition fails. The examples are the run on \<open>[nan, nan]\<close>
  above, a run on numbers that ends after ten passes by the tolerance test, and a run
  with \<open>\<sigma> = [-1]\<close> and \<open>alpha = 1\<close> that raises in its second pass.
\<close>

theorem bift_stops_or_raises_within_maxit:
  "(bift_guard_fl st \<longleftrightarrow> \<not> stop_or_nan st)
   \<and> (stop_or_nan st \<longleftrightarrow> spec_stop_fl st \<or> (fl_ite st \<ge> minit \<and> fl_dotsp st = None))
   \<and> (case bift_fl B N m P Bmat alpha sum_dia bkk bkkmax of
        Inr st' \<Rightarrow>
          stop_or_nan st' \<and> fl_ite st' \<le> maxit
          \<and> passes (bift_body_fl B N Bmat alpha sum_dia bkk bkkmax) (fl_ite st')
               (bift_init_fl N m P) = Inr st'
          \<and> list_all (\<lambda>n. case passes (bift_body_fl B N Bmat alpha sum_dia bkk bkkmax) n
                                  (bift_init_fl N m P) of
                             Inr s \<Rightarrow> \<not> stop_or_nan s
                           | Inl e \<Rightarrow> False)
               [0..<fl_ite st']
      | Inl e \<Rightarrow>
          e = ZeroDivisionError
          \<and> list_ex (\<lambda>n. case passes (bift_body_fl B N Bmat alpha sum_dia bkk bkkmax) n
                                 (bift_init_fl N m P) of
                            Inr s \<Rightarrow> \<not> stop_or_nan s
                                     \<and> bift_body_fl B N Bmat alpha sum_dia bkk bkkmax s
                                         = Inl ZeroDivisionError
                          | Inl e' \<Rightarrow> False)
               [0..<maxit])
   \<and> maxit = 1000"
proof -
  let ?body = "bift_body_fl B N Bmat alpha sum_dia bkk bkkmax"
  let ?ini = "bift_init_fl N m P"
  have i0: "fl_ite ?ini = 0" by (simp add: bift_init_fl_def)
  have a: "bift_guard_fl st \<longleftrightarrow> \<not> stop_or_nan st" by (rule guard_fl_iff)
  have b: "stop_or_nan st \<longleftrightarrow> spec_stop_fl st \<or> (fl_ite st \<ge> minit \<and> fl_dotsp st = None)"
    by (auto simp: stop_or_nan_def spec_stop_fl_def)
  have c: "case bift_fl B N m P Bmat alpha sum_dia bkk bkkmax of
        Inr st' \<Rightarrow>
          stop_or_nan st' \<and> fl_ite st' \<le> maxit
          \<and> passes ?body (fl_ite st') ?ini = Inr st'
          \<and> list_all (\<lambda>n. case passes ?body n ?ini of
                             Inr s \<Rightarrow> \<not> stop_or_nan s
                           | Inl e \<Rightarrow> False)
               [0..<fl_ite st']
      | Inl e \<Rightarrow>
          e = ZeroDivisionError
          \<and> list_ex (\<lambda>n. case passes ?body n ?ini of
                            Inr s \<Rightarrow> \<not> stop_or_nan s \<and> ?body s = Inl ZeroDivisionError
                          | Inl e' \<Rightarrow> False)
               [0..<maxit]"
  proof (cases "bift_fl B N m P Bmat alpha sum_dia bkk bkkmax")
    case (Inr st')
    then have "bift_loop_fl B N Bmat alpha sum_dia bkk bkkmax ?ini = Inr st'"
      by (simp add: bift_fl_def)
    from bift_loop_fl_Inr [OF this] obtain n where
      p: "passes ?body n ?ini = Inr st'" and i: "fl_ite st' = fl_ite ?ini + n"
      and g: "\<not> bift_guard_fl st'"
      and e: "\<forall>k<n. \<exists>s. passes ?body k ?ini = Inr s \<and> bift_guard_fl s"
      by blast
    from i have n: "n = fl_ite st'" by (simp add: i0)
    have le: "fl_ite st' \<le> maxit"
    proof (cases n)
      case 0
      then show ?thesis using n by simp
    next
      case (Suc k)
      with e obtain s where s: "passes ?body k ?ini = Inr s" "bift_guard_fl s" by auto
      from passes_ite [OF s(1)] have "fl_ite s = k" by (simp add: i0)
      with guard_fl_lt_maxit [OF s(2)] Suc n show ?thesis by simp
    qed
    have "list_all (\<lambda>n. case passes ?body n ?ini of
                           Inr s \<Rightarrow> \<not> stop_or_nan s | Inl e \<Rightarrow> False) [0..<fl_ite st']"
      unfolding list_all_iff
    proof
      fix k assume "k \<in> set [0..<fl_ite st']"
      then have "k < n" using n by simp
      with e obtain s where "passes ?body k ?ini = Inr s" "bift_guard_fl s" by blast
      then show "case passes ?body k ?ini of Inr s \<Rightarrow> \<not> stop_or_nan s | Inl e \<Rightarrow> False"
        by (simp add: guard_fl_iff)
    qed
    with g le p n Inr show ?thesis by (simp add: guard_fl_iff)
  next
    case (Inl e)
    then have "bift_loop_fl B N Bmat alpha sum_dia bkk bkkmax ?ini = Inl e"
      by (simp add: bift_fl_def)
    from bift_loop_fl_Inl [OF this] obtain n s where
      p: "passes ?body n ?ini = Inr s" and i: "fl_ite s = fl_ite ?ini + n"
      and g: "bift_guard_fl s" and r: "?body s = Inl e"
      by blast
    from bift_body_fl_Inl [OF r] have z: "e = ZeroDivisionError" .
    from guard_fl_lt_maxit [OF g] i have "n \<in> set [0..<maxit]" by (simp add: i0)
    moreover have "case passes ?body n ?ini of
                     Inr s \<Rightarrow> \<not> stop_or_nan s \<and> ?body s = Inl ZeroDivisionError
                   | Inl e' \<Rightarrow> False"
      using p g r z by (simp add: guard_fl_iff)
    ultimately have "list_ex (\<lambda>n. case passes ?body n ?ini of
                            Inr s \<Rightarrow> \<not> stop_or_nan s \<and> ?body s = Inl ZeroDivisionError
                          | Inl e' \<Rightarrow> False) [0..<maxit]"
      unfolding list_ex_iff by blast
    with Inl z show ?thesis by simp
  qed
  from a b c show ?thesis by (simp add: maxit_def)
qed


theorem bift_stops_or_raises_within_maxit_witness:
  "passes (bift_body_fl [[Some 1, Some 1], [Some 1, Some 1]] 2
             [[Some 0, Some 1], [Some 1, Some 0]] (Some 1) [Some 1, Some 1] [Some 1, Some 1]
             (Some 10))
          10 (bift_init_fl 2 [None, None] [None, None])
     = Inr \<lparr>fl_ite = 10, fl_omega = 1 / 2, fl_dotsp = None, fl_s = None,
            fl_wgrads = None, fl_wgradc = None, fl_m = [None, None], fl_P = [None, None],
            fl_Psumi = [Some 0, Some 0], fl_dP = [None, None], fl_Pold = [None, None]\<rparr>
   \<and> passes (bift_body_fl [[Some 2, Some 2], [Some 2, Some 2]] 2
               [[Some 0, Some 2], [Some 2, Some 0]] (Some 1) [Some 0, Some 0]
               [Some 2, Some 2] (Some 20))
            10 (bift_init_fl 2 [Some 0, Some 0] [Some 0, Some 0])
     = Inr \<lparr>fl_ite = 10, fl_omega = 1 / 2, fl_dotsp = Some 1, fl_s = Some 0,
            fl_wgrads = Some 0, fl_wgradc = Some 0, fl_m = [Some 0, Some 0],
            fl_P = [Some 0, Some 0], fl_Psumi = [Some 0, Some 0], fl_dP = [Some 0, Some 0],
            fl_Pold = [Some 0, Some 0]\<rparr>
   \<and> spec_stop_fl \<lparr>fl_ite = 10, fl_omega = 1 / 2, fl_dotsp = Some 1, fl_s = Some 0,
            fl_wgrads = Some 0, fl_wgradc = Some 0, fl_m = [Some 0, Some 0],
            fl_P = [Some 0, Some 0], fl_Psumi = [Some 0, Some 0], fl_dP = [Some 0, Some 0],
            fl_Pold = [Some 0, Some 0]\<rparr>
   \<and> list_ex (\<lambda>n. case passes (bift_body_fl [[Some (- 1), Some (- 1)], [Some (- 1), Some (- 1)]]
                                   2 [[Some 0, Some (- 1)], [Some (- 1), Some 0]] (Some 1)
                                   [Some (- 1), Some (- 1)] [Some (- 1), Some (- 1)]
                                   (Some (- 10)))
                                n (bift_init_fl 2 [Some 1, Some 1] [Some 1, Some 1]) of
                       Inr s \<Rightarrow> \<not> stop_or_nan s
                                \<and> bift_body_fl [[Some (- 1), Some (- 1)], [Some (- 1), Some (- 1)]]
                                     2 [[Some 0, Some (- 1)], [Some (- 1), Some 0]] (Some 1)
                                     [Some (- 1), Some (- 1)] [Some (- 1), Some (- 1)]
                                     (Some (- 10)) s = Inl ZeroDivisionError
                     | Inl e' \<Rightarrow> False)
        [0..<maxit]"
  using bift_stops_or_raises_within_maxit [where st = "\<lparr>fl_ite = 10, fl_omega = 1 / 2, fl_dotsp = Some 1, fl_s = Some 0,
        fl_wgrads = Some 0, fl_wgradc = Some 0, fl_m = [Some 0, Some 0],
        fl_P = [Some 0, Some 0], fl_Psumi = [Some 0, Some 0], fl_dP = [Some 0, Some 0],
        fl_Pold = [Some 0, Some 0]\<rparr>"
      and B = "[[Some 1, Some 1], [Some 1, Some 1]]" and N = 2
      and m = "[None, None]" and P = "[None, None]"
      and Bmat = "[[Some 0, Some 1], [Some 1, Some 0]]" and alpha = "Some 1"
      and sum_dia = "[Some 1, Some 1]" and bkk = "[Some 1, Some 1]" and bkkmax = "Some 10"]
    bift_stops_or_raises_within_maxit [where st = "\<lparr>fl_ite = 10, fl_omega = 1 / 2, fl_dotsp = Some 1, fl_s = Some 0,
        fl_wgrads = Some 0, fl_wgradc = Some 0, fl_m = [Some 0, Some 0],
        fl_P = [Some 0, Some 0], fl_Psumi = [Some 0, Some 0], fl_dP = [Some 0, Some 0],
        fl_Pold = [Some 0, Some 0]\<rparr>"
      and B = "[[Some 2, Some 2], [Some 2, Some 2]]" and N = 2
      and m = "[Some 0, Some 0]" and P = "[Some 0, Some 0]"
      and Bmat = "[[Some 0, Some 2], [Some 2, Some 0]]" and alpha = "Some 1"
      and sum_dia = "[Some 0, Some 0]" and bkk = "[Some 2, Some 2]" and bkkmax = "Some 20"]
    bift_stops_or_raises_within_maxit [where st = "\<lparr>fl_ite = 10, fl_omega = 1 / 2, fl_dotsp = Some 1, fl_s = Some 0,
        fl_wgrads = Some 0, fl_wgradc = Some 0, fl_m = [Some 0, Some 0],
        fl_P = [Some 0, Some 0], fl_Psumi = [Some 0, Some 0], fl_dP = [Some 0, Some 0],
        fl_Pold = [Some 0, Some 0]\<rparr>"
      and B = "[[Some (- 1), Some (- 1)], [Some (- 1), Some (- 1)]]" and N = 2
      and m = "[Some 1, Some 1]" and P = "[Some 1, Some 1]"
      and Bmat = "[[Some 0, Some (- 1)], [Some (- 1), Some 0]]" and alpha = "Some 1"
      and sum_dia = "[Some (- 1), Some (- 1)]" and bkk = "[Some (- 1), Some (- 1)]" and bkkmax = "Some (- 10)"]
  unfolding nan_run zero_fl_run raise_run sum.case
  by simp

text \<open>
  Claim C8: the flag is read once before each cell of the grid search, so the read
  number \<open>k\<close> is the one before cell \<open>k\<close>. If the flag is set at read \<open>k\<close> of a
  grid of more than \<open>k\<close> cells and at no earlier read, then the search reaches cell
  \<open>k\<close> unless the evaluation of an earlier cell raised an exception. When it reaches
  it, the queue holds the update records of the cells \<open>0, \<dots>, k - 1\<close> and behind
  them one canceled record, and \<open>doBift\<close> returns \<open>None\<close>: no cell from \<open>k\<close> on has
  an update record. Otherwise the queue holds fewer than \<open>k\<close> update records and
  nothing else, and the exception leaves \<open>doBift\<close>. On inputs on which no cell raises,
  the first is what happens. With \<open>k = 0\<close>, a flag set before the search starts, the
  queue is the one canceled record.
\<close>

theorem cancel_stops_grid:
  assumes "k < dmaxN * alphaN" and "cancel k" and "\<forall>j<k. \<not> cancel j"
  shows "(\<exists>ss. map status_spoint ss = [0..<length ss]
            \<and> (doBift cancel Exp N alphamax alphamin alphaN maxDmax minDmax dmaxN
                  = (map Update ss @ [Canceled], Inr None) \<and> length ss = k
               \<or> (\<exists>e. doBift cancel Exp N alphamax alphamin alphaN maxDmax minDmax dmaxN
                         = (map Update ss, Inl e)) \<and> length ss < k))
         \<and> (search_input_valid Exp N alphamin alphamax \<longrightarrow>
              (\<exists>ss. doBift cancel Exp N alphamax alphamin alphaN maxDmax minDmax dmaxN
                       = (map Update ss @ [Canceled], Inr None)
                     \<and> map status_spoint ss = [0..<k]))"
proof -
  let ?g = "doBift_grid cancel Exp N alphamax alphamin alphaN maxDmax minDmax dmaxN"
  let ?D = "doBift cancel Exp N alphamax alphamin alphaN maxDmax minDmax dmaxN"
  from grid_flow [OF assms, of Exp N alphamax alphamin maxDmax minDmax] obtain ss where
    sp: "map status_spoint ss = [0..<length ss]"
    and o: "case snd ?g of
              Cancelled \<Rightarrow> queue (fst ?g) = map Update ss @ [Canceled] \<and> length ss = k
            | Raised e \<Rightarrow> queue (fst ?g) = map Update ss \<and> length ss < k
            | Next \<Rightarrow> False"
    by blast
  have a: "(?D = (map Update ss @ [Canceled], Inr None) \<and> length ss = k)
           \<or> ((\<exists>e. ?D = (map Update ss, Inl e)) \<and> length ss < k)"
  proof (cases "snd ?g")
    case Next
    with o show ?thesis by simp
  next
    case Cancelled
    with o show ?thesis by (simp add: doBift_of_grid)
  next
    case (Raised e)
    with o show ?thesis by (simp add: doBift_of_grid)
  qed
  have b: "\<exists>ss. ?D = (map Update ss @ [Canceled], Inr None) \<and> map status_spoint ss = [0..<k]"
    if "search_input_valid Exp N alphamin alphamax"
  proof -
    from that have "evidence_defined Exp N" by (simp add: search_input_valid_def)
    from grid_not_raised [OF this] have "\<And>e. snd ?g \<noteq> Raised e" .
    with o have "snd ?g = Cancelled" by (cases "snd ?g") auto
    with o have "?D = (map Update ss @ [Canceled], Inr None)" "length ss = k"
      by (simp_all add: doBift_of_grid)
    with sp show ?thesis by auto
  qed
  from sp a b show ?thesis by blast
qed

theorem cancel_stops_grid_witness:
  "(1 :: nat) < 2 * 2 \<and> (\<lambda>n. n = 1) (1 :: nat) \<and> \<not> (\<lambda>n. n = (1 :: nat)) 0
   \<and> search_input_valid (one_point 1) 3 1 100
   \<and> (\<exists>ss. doBift (\<lambda>n. n = 1) (one_point 1) 3 100 1 2 20 10 2
              = (map Update ss @ [Canceled], Inr None)
            \<and> map status_spoint ss = [0..<1])
   \<and> (0 :: nat) < 2 * 2 \<and> (\<lambda>n. True) (0 :: nat)
   \<and> doBift (\<lambda>n. True) (one_point 1) 3 100 1 2 20 10 2 = ([Canceled], Inr None)"
proof -
  have a: "(1 :: nat) < 2 * 2" and b: "(\<lambda>n. n = 1) (1 :: nat)"
    and c: "\<forall>j<1. \<not> (\<lambda>n. n = (1 :: nat)) j" by simp_all
  have a0: "(0 :: nat) < 2 * 2" and b0: "(\<lambda>n. True) (0 :: nat)"
    and c0: "\<forall>j<0. \<not> (\<lambda>n :: nat. True) j" by simp_all
  have v: "search_input_valid (one_point 1) 3 1 100"
    using one_point_defined(1)
    by (simp add: search_input_valid_def one_point_def window_err_def getQrange_def
        py_slice_def slice_bound_def)
  note w1 = cancel_stops_grid [OF a b c, of "one_point 1" 3 100 1 20 10]
  note w0 = cancel_stops_grid [OF a0 b0 c0, of "one_point 1" 3 100 1 20 10]
  from w0 v have "doBift (\<lambda>n. True) (one_point 1) 3 100 1 2 20 10 2 = ([Canceled], Inr None)"
    by simp
  with w1 v show ?thesis by simp
qed

text \<open>
  Claim C9: every IFT artifact that \<open>SingleSolve\<close> or \<open>doBift\<close> produces from an
  \<open>N\<close>-point solve with \<open>D_max > 0\<close> has \<open>p\<close> of length \<open>N + 2\<close> with
  \<open>p[0] = p[N+1] = 0\<close>, \<open>r\<close> as long as \<open>p\<close> and strictly increasing from 0 to
  \<open>D_max\<close>, and a fit as long as the windowed \<open>q\<close>. For \<open>doBift\<close> the artifact
  is made by its last stage from the values of the fine search, and \<open>D_max\<close> is the
  \<open>dmax\<close> entry of its metadata.
\<close>

theorem artifact_invariants:
  "(SingleSolve alpha dm Ep N = Inr a \<longrightarrow> 0 < dm \<longrightarrow> ift_invariants N dm Ep a)
   \<and> (doBift_result Ep N aps dps tot st q1 alpha' dm' = (q, Inr (Some a')) \<longrightarrow> 0 < dm'
        \<longrightarrow> ift_invariants N dm' Ep a')
   \<and> (doBift cancel Ep N alphamax alphamin alphaN maxDmax minDmax dmaxN = (q', Inr (Some a''))
        \<longrightarrow> 0 < info_dmax (ift_info a'')
        \<longrightarrow> ift_invariants N (info_dmax (ift_info a'')) Ep a'')"
proof (intro conjI impI)
  assume "SingleSolve alpha dm Ep N = Inr a" "0 < dm"
  then show "ift_invariants N dm Ep a"
    using SingleSolve_Inr [of alpha dm Ep N a] artifact_of_solution by blast
next
  assume "doBift_result Ep N aps dps tot st q1 alpha' dm' = (q, Inr (Some a'))" "0 < dm'"
  then show "ift_invariants N dm' Ep a'"
    using doBift_result_Some [of Ep N aps dps tot st q1 alpha' dm' q a'] artifact_of_solution
    by blast
next
  assume h: "doBift cancel Ep N alphamax alphamin alphaN maxDmax minDmax dmaxN
      = (q', Inr (Some a''))" and d: "0 < info_dmax (ift_info a'')"
  from doBift_Some [OF h] obtain aps dps tot st q1 al dm where
    "doBift_result Ep N aps dps tot st q1 al dm = (q', Inr (Some a''))" by blast
  from doBift_result_Some [OF this] obtain Pr post c T rep info where
    s: "solve_at al dm Ep N = Inr ((Pr, post, c), T)" and r: "make_report Pr T dm = Inr rep"
    and a: "a'' = IFTM (rep_Pr rep) (rep_r rep) (replicate (length (rep_Pr rep)) 1)
                   (window_i Ep) (window_q Ep) (window_err Ep) (rep_Fit rep) info"
    and i: "info_dmax info = dm"
    by blast
  from d have "0 < dm" by (simp add: a i)
  from artifact_of_solution [OF s r this] show
    "ift_invariants N (info_dmax (ift_info a'')) Ep a''" by (simp add: a i)
qed

theorem artifact_invariants_witness:
  "(case SingleSolve 1 2 (one_point 1) 3 of
      Inl e \<Rightarrow> False
    | Inr a \<Rightarrow> (0 :: real) < 2 \<and> ift_invariants 3 2 (one_point 1) a)
   \<and> (case snd (doBift_result (one_point 1) 3 [0] [2] 1 (grid_start [2] [0]) [] 1 2) of
        Inl e \<Rightarrow> False
      | Inr None \<Rightarrow> False
      | Inr (Some a) \<Rightarrow> (0 :: real) < 2 \<and> ift_invariants 3 2 (one_point 1) a)"
proof -
  have d: "(0 :: real) < 2" by simp
  from SingleSolve_returns [OF one_point_defined(1) _ one_point_defined(2), of 1 2]
  obtain a where a: "SingleSolve 1 2 (one_point 1) 3 = Inr a" by auto
  from doBift_result_returns [OF one_point_defined(1) _ one_point_defined(2), of 1]
  obtain q b where
    b: "doBift_result (one_point 1) 3 [0] [2] 1 (grid_start [2] [0]) [] 1 2 = (q, Inr (Some b))"
    by (metis one_neq_zero)
  from artifact_invariants [of 1 2 "one_point 1" 3 a "[0]" "[2]" 1 "grid_start [2] [0]" "[]" 1 2 q b]
    a b d
  show ?thesis by simp
qed

text \<open>
  Claim C10: in every run of the inner solver \<open>omega\<close> changes only by a division
  by \<open>omegareduction = 2\<close> that the guard \<open>omega > omegamin\<close> of the reduction loop
  allowed, so every value it holds is above \<open>omegamin / 2 = 0.0005\<close> and positive,
  and the step \<open>P = (1 - omega) Pold + omega dP\<close> never has weight zero. In the
  history, each entry but the last (the initial value) is half the entry behind it,
  which was above \<open>omegamin\<close>.
\<close>

theorem omega_above_half_omegamin:
  "successively (\<lambda>new old. new = old / omegareduction \<and> omegamin < old)
     (omega_hist (bift B N m P Bmat alpha sum_dia bkk bkkmax))
   \<and> hd (omega_hist (bift B N m P Bmat alpha sum_dia bkk bkkmax))
       = omega (bift B N m P Bmat alpha sum_dia bkk bkkmax)
   \<and> last (omega_hist (bift B N m P Bmat alpha sum_dia bkk bkkmax)) = omega_init
   \<and> list_all (\<lambda>w. omegamin / 2 < w \<and> 0 < w)
       (omega_hist (bift B N m P Bmat alpha sum_dia bkk bkkmax))
   \<and> omegamin / 2 < omega (bift B N m P Bmat alpha sum_dia bkk bkkmax)
   \<and> omegareduction = 2 \<and> omegamin / 2 = 5 / 10000"
proof -
  let ?st = "bift B N m P Bmat alpha sum_dia bkk bkkmax"
  have inv: "hist_inv ?st" by (rule hist_inv_bift)
  then have ne: "omega_hist ?st \<noteq> []" and hd: "hd (omega_hist ?st) = omega ?st"
    and la: "last (omega_hist ?st) = omega_init"
    and su: "successively (\<lambda>new old. new = old / omegareduction \<and> omegamin < old) (omega_hist ?st)"
    by (simp_all add: hist_inv_def)
  from halving_bounds [OF ne la su]
  have b: "list_all (\<lambda>w. omegamin / 2 < w \<and> w \<le> omega_init) (omega_hist ?st)" by simp
  have "(omegamin / 2 < w \<and> w \<le> omega_init) \<Longrightarrow> (omegamin / 2 < w \<and> 0 < w)" for w
    by (simp add: omegamin_def)
  with b have pos: "list_all (\<lambda>w. omegamin / 2 < w \<and> 0 < w) (omega_hist ?st)"
    by (simp add: list_all_iff)
  have "hd (omega_hist ?st) \<in> set (omega_hist ?st)" using ne by simp
  with pos hd have "omegamin / 2 < omega ?st" by (auto simp: list_all_iff)
  with su hd la pos show ?thesis by (simp add: omegareduction_def omegamin_def)
qed

end
